theory Spec2Isabelle
  imports Main "HOL-Library.Sublist"
begin

section \<open>Strings and paths\<close>

text \<open>
  The program of \<^verbatim>\<open>remove_dupes.py\<close> works on path strings.  A string is a list of
  one-byte characters; the path separator is \<^verbatim>\<open>os.path.sep\<close> of a POSIX system.
  The functions \<^verbatim>\<open>hash_file\<close>, \<^verbatim>\<open>get_all_files\<close>, \<^verbatim>\<open>get_originals\<close>, \<^verbatim>\<open>get_dupes\<close>,
  \<^verbatim>\<open>remove_dupes\<close> and \<^verbatim>\<open>main\<close> are embedded, with the library functions they call
  (\<^verbatim>\<open>str.split\<close>, \<^verbatim>\<open>os.path.join\<close>, \<^verbatim>\<open>glob.glob\<close>, \<^verbatim>\<open>fnmatch\<close>); the parsing of the
  command line and the pause before the run are not.
\<close>

type_synonym path = string

definition sep :: char where
  "sep = CHR ''/''"

text \<open>\<^verbatim>\<open>s.split(c)\<close> for a separator of one character: never the empty list.\<close>

fun py_split :: "char \<Rightarrow> string \<Rightarrow> string list" where
  "py_split c [] = [[]]"
| "py_split c (x # xs) =
     (if x = c then [] # py_split c xs
      else (case py_split c xs of
              [] \<Rightarrow> [[x]]
            | w # ws \<Rightarrow> (x # w) # ws))"

text \<open>\<^verbatim>\<open>sub in s\<close> on strings: \<open>sub\<close> occurs as a contiguous piece of \<open>s\<close>.\<close>

fun py_in :: "string \<Rightarrow> string \<Rightarrow> bool" where
  "py_in sub [] = (sub = [])"
| "py_in sub (x # xs) = (prefix sub (x # xs) \<or> py_in sub xs)"

text \<open>\<^verbatim>\<open>s.rfind(c)\<close>: the last index of \<open>c\<close>, or \<open>-1\<close>.\<close>

fun py_rfind :: "char \<Rightarrow> string \<Rightarrow> int" where
  "py_rfind c [] = - 1"
| "py_rfind c (x # xs) =
     (let r = py_rfind c xs
      in if 0 \<le> r then r + 1 else if x = c then 0 else - 1)"

definition py_endswith :: "string \<Rightarrow> string \<Rightarrow> bool" where
  "py_endswith s suf = suffix suf s"

definition py_startswith :: "string \<Rightarrow> string \<Rightarrow> bool" where
  "py_startswith s pre = prefix pre s"

text \<open>\<^verbatim>\<open>s.rstrip(c)\<close> for one character.\<close>

definition py_rstrip :: "char \<Rightarrow> string \<Rightarrow> string" where
  "py_rstrip c s = rev (dropWhile (\<lambda>x. x = c) (rev s))"

text \<open>\<^verbatim>\<open>posixpath.join(a, b)\<close> with two arguments.\<close>

definition os_path_join :: "path \<Rightarrow> string \<Rightarrow> path" where
  "os_path_join a b =
     (if py_startswith b [sep] then b
      else if a = [] \<or> py_endswith a [sep] then a @ b
      else a @ [sep] @ b)"

text \<open>\<^verbatim>\<open>posixpath.split(p)\<close>: head and tail around the last separator.\<close>

definition os_path_split :: "path \<Rightarrow> path \<times> string" where
  "os_path_split p =
     (let i = nat (py_rfind sep p + 1);
          head = take i p;
          tail = drop i p
      in (if head \<noteq> [] \<and> head \<noteq> replicate (length head) sep
          then py_rstrip sep head else head, tail))"

section \<open>Shell patterns: \<^verbatim>\<open>fnmatch\<close>\<close>

text \<open>
  \<^verbatim>\<open>glob.glob\<close> selects names with \<^verbatim>\<open>fnmatch.filter\<close>, which turns the pattern
  into a regular expression (\<^verbatim>\<open>fnmatch.translate\<close>).  The matcher below reads the
  pattern the way \<^verbatim>\<open>translate\<close> does: \<^verbatim>\<open>*\<close> is any text, \<^verbatim>\<open>?\<close> any one character,
  \<^verbatim>\<open>[...]\<close> a set of characters, and a \<^verbatim>\<open>[\<close> that is never closed stands for itself.
\<close>

text \<open>
  The index of the \<^verbatim>\<open>]\<close> that closes a set, in the text after the \<^verbatim>\<open>[\<close>: a leading
  \<^verbatim>\<open>!\<close> and a \<^verbatim>\<open>]\<close> right after the opening do not close it.
\<close>

definition bracket_end :: "string \<Rightarrow> nat option" where
  "bracket_end rest =
     (let j0 = (if rest \<noteq> [] \<and> hd rest = CHR ''!'' then 1 else 0);
          j1 = (if j0 < length rest \<and> rest ! j0 = CHR '']'' then j0 + 1 else j0);
          j2 = j1 + length (takeWhile (\<lambda>c. c \<noteq> CHR '']'') (drop j1 rest))
      in if length rest \<le> j2 then None else Some j2)"

text \<open>
  The text of a set holding a hyphen is cut into chunks at the hyphens that can make a
  range: a hyphen is looked for from \<open>skip\<close> characters on, and the two characters
  after a cut are passed over.
\<close>

fun chunks_from :: "nat \<Rightarrow> string \<Rightarrow> string \<Rightarrow> string list" where
  "chunks_from skip cur [] = [cur]"
| "chunks_from skip cur (c # cs) =
     (if c = CHR ''-'' \<and> skip = 0 then cur # chunks_from 2 [] cs
      else chunks_from (skip - 1) (cur @ [c]) cs)"

text \<open>A hyphen at the very end joins the chunk before it.\<close>

definition split_chunks :: "string \<Rightarrow> string list" where
  "split_chunks stuff =
     (let chunks = chunks_from (if hd stuff = CHR ''!'' then 2 else 1) [] stuff
      in if last chunks = [] \<and> 2 \<le> length chunks
         then butlast (butlast chunks) @ [last (butlast chunks) @ ''-'']
         else chunks)"

text \<open>
  Empty ranges are removed from the last chunk down to the first: where the end of a
  chunk is above the start of the next, both characters go and the chunks are glued.
\<close>

fun merge_chunks :: "string list \<Rightarrow> string list" where
  "merge_chunks [] = []"
| "merge_chunks [c] = [c]"
| "merge_chunks (c # c' # cs) =
     (case merge_chunks (c' # cs) of
        [] \<Rightarrow> [c]
      | d # ds \<Rightarrow>
          (if c \<noteq> [] \<and> d \<noteq> [] \<and> (of_char (hd d) :: nat) < of_char (last c)
           then (butlast c @ tl d) # ds
           else c # d # ds))"

text \<open>
  What the regular expression sees between its brackets: characters that stand for
  themselves (escaped where needed), and the unescaped hyphens that join the chunks.
\<close>

datatype ctok = Lit char | Hy

fun join_chunks :: "string list \<Rightarrow> ctok list" where
  "join_chunks [] = []"
| "join_chunks [c] = map Lit c"
| "join_chunks (c # c' # cs) = map Lit c @ Hy # join_chunks (c' # cs)"

definition set_tokens :: "string \<Rightarrow> ctok list" where
  "set_tokens stuff =
     (if CHR ''-'' \<notin> set stuff then map Lit stuff
      else join_chunks (merge_chunks (split_chunks stuff)))"

fun tok_char :: "ctok \<Rightarrow> char" where
  "tok_char (Lit c) = c"
| "tok_char Hy = CHR ''-''"

text \<open>The members of a regular-expression set, as ranges of characters.\<close>

fun set_items :: "ctok list \<Rightarrow> (char \<times> char) list" where
  "set_items [] = []"
| "set_items [t] = [(tok_char t, tok_char t)]"
| "set_items (t # Hy # t' # ts) = (tok_char t, tok_char t') # set_items ts"
| "set_items (t # t' # ts) = (tok_char t, tok_char t) # set_items (t' # ts)"

definition in_items :: "(char \<times> char) list \<Rightarrow> char \<Rightarrow> bool" where
  "in_items items c =
     list_ex (\<lambda>(lo, hi). (of_char lo :: nat) \<le> of_char c \<and> (of_char c :: nat) \<le> of_char hi) items"

text \<open>
  A set with no text never matches; a leading \<^verbatim>\<open>!\<close> negates, and alone it matches
  any character.
\<close>

definition set_matches :: "string \<Rightarrow> char \<Rightarrow> bool" where
  "set_matches stuff c =
     (let toks = set_tokens stuff
      in if toks = [] then False
         else if toks = [Lit CHR ''!''] then True
         else if hd toks = Lit CHR ''!'' then \<not> in_items (set_items (tl toks)) c
         else in_items (set_items toks) c)"

fun match_pat :: "string \<Rightarrow> string \<Rightarrow> bool" where
  "match_pat [] name = (name = [])"
| "match_pat (c # pat) [] = (if c = CHR ''*'' then match_pat pat [] else False)"
| "match_pat (c # pat) (n # name) =
     (if c = CHR ''*'' then match_pat pat (n # name) \<or> match_pat (c # pat) name
      else if c = CHR ''?'' then match_pat pat name
      else if c = CHR ''['' then
        (case bracket_end pat of
           None \<Rightarrow> n = CHR ''['' \<and> match_pat pat name
         | Some j \<Rightarrow> set_matches (take j pat) n \<and> match_pat (drop (Suc j) pat) name)
      else n = c \<and> match_pat pat name)"

definition fnmatchcase :: "string \<Rightarrow> string \<Rightarrow> bool" where
  "fnmatchcase name pat = match_pat pat name"

text \<open>\<^verbatim>\<open>fnmatch.filter\<close> on a POSIX system, where \<^verbatim>\<open>normcase\<close> changes nothing.\<close>

definition fnmatch_filter :: "string list \<Rightarrow> string \<Rightarrow> string list" where
  "fnmatch_filter names pat = filter (\<lambda>name. fnmatchcase name pat) names"

section \<open>The file system\<close>

text \<open>
  The operating system is the program's environment.  Its state is a store from path
  strings to nodes, in directory order.  A path has one spelling: the store is keyed by
  the strings that \<^verbatim>\<open>os.path.join\<close> builds, and the entries of the working directory
  are the keys without a separator.  Whether a file can be read or unlinked is a flag
  of its node.  There are no symbolic links.
\<close>

datatype node =
    File (content: string) (readable: bool) (removable: bool)
  | Dir (listable: bool)

type_synonym filesystem = "(path \<times> node) list"

datatype os_error =
    FileNotFoundError
  | PermissionError
  | IsADirectoryError
  | NotADirectoryError

definition os_path_lexists :: "filesystem \<Rightarrow> path \<Rightarrow> bool" where
  "os_path_lexists fs p = (map_of fs p \<noteq> None)"

definition os_path_isdir :: "filesystem \<Rightarrow> path \<Rightarrow> bool" where
  "os_path_isdir fs p = (case map_of fs p of Some (Dir l) \<Rightarrow> True | _ \<Rightarrow> False)"

text \<open>The names directly inside directory \<open>d\<close>: the keys \<open>os_path_join d n\<close>.\<close>

definition children :: "filesystem \<Rightarrow> path \<Rightarrow> string list" where
  "children fs d =
     (let k = length (os_path_join d [])
      in map (drop k)
           (filter (\<lambda>p. prefix (os_path_join d []) p \<and> drop k p \<noteq> [] \<and> sep \<notin> set (drop k p))
              (map fst fs)))"

definition os_listdir :: "filesystem \<Rightarrow> path \<Rightarrow> os_error + string list" where
  "os_listdir fs p =
     (case map_of fs p of
        None \<Rightarrow> Inl FileNotFoundError
      | Some (File c r u) \<Rightarrow> Inl NotADirectoryError
      | Some (Dir l) \<Rightarrow> if l then Inr (children fs p) else Inl PermissionError)"

text \<open>\<^verbatim>\<open>open(filename, 'rb')\<close> followed by reading: the bytes, or the error of the open.\<close>

definition open_rb :: "filesystem \<Rightarrow> path \<Rightarrow> os_error + string" where
  "open_rb fs p =
     (case map_of fs p of
        None \<Rightarrow> Inl FileNotFoundError
      | Some (Dir l) \<Rightarrow> Inl IsADirectoryError
      | Some (File c r u) \<Rightarrow> if r then Inr c else Inl PermissionError)"

text \<open>\<^verbatim>\<open>os.remove(p)\<close>: the store without \<open>p\<close>, or the error of the unlink.\<close>

definition os_remove :: "filesystem \<Rightarrow> path \<Rightarrow> os_error + filesystem" where
  "os_remove fs p =
     (case map_of fs p of
        None \<Rightarrow> Inl FileNotFoundError
      | Some (Dir l) \<Rightarrow> Inl IsADirectoryError
      | Some (File c r u) \<Rightarrow>
          if u then Inr (filter (\<lambda>e. fst e \<noteq> p) fs) else Inl PermissionError)"

section \<open>\<^verbatim>\<open>glob.glob\<close>\<close>

definition has_magic :: "string \<Rightarrow> bool" where
  "has_magic s = (\<exists>c \<in> set s. c = CHR ''*'' \<or> c = CHR ''?'' \<or> c = CHR ''['')"

definition ishidden :: "string \<Rightarrow> bool" where
  "ishidden p = (p \<noteq> [] \<and> hd p = CHR ''.'')"

text \<open>\<^verbatim>\<open>glob._join\<close>.\<close>

definition glob_join :: "path \<Rightarrow> string \<Rightarrow> path" where
  "glob_join dirname basename =
     (if dirname = [] \<or> basename = [] then (if dirname \<noteq> [] then dirname else basename)
      else os_path_join dirname basename)"

text \<open>
  \<^verbatim>\<open>glob._listdir\<close>: the names in a directory, or only the directories among them; an
  empty name is the working directory; any error of the listing gives no names.
\<close>

definition glob_listdir :: "filesystem \<Rightarrow> path \<Rightarrow> bool \<Rightarrow> string list" where
  "glob_listdir fs dirname dironly =
     (case (if dirname = [] then Inr (children fs []) else os_listdir fs dirname) of
        Inl e \<Rightarrow> []
      | Inr names \<Rightarrow>
          filter (\<lambda>n. \<not> dironly \<or> os_path_isdir fs (os_path_join dirname n)) names)"

definition glob1 :: "filesystem \<Rightarrow> path \<Rightarrow> string \<Rightarrow> bool \<Rightarrow> string list" where
  "glob1 fs dirname pattern dironly =
     (let names = glob_listdir fs dirname dironly;
          names' = (if \<not> ishidden pattern then filter (\<lambda>x. \<not> ishidden x) names else names)
      in fnmatch_filter names' pattern)"

definition glob0 :: "filesystem \<Rightarrow> path \<Rightarrow> string \<Rightarrow> string list" where
  "glob0 fs dirname basename =
     (if basename \<noteq> [] then
        (if os_path_lexists fs (glob_join dirname basename) then [basename] else [])
      else
        (if os_path_isdir fs dirname then [basename] else []))"

lemma os_path_split_shorter:
  "(dirname, basename) = os_path_split pathname \<Longrightarrow> dirname \<noteq> pathname
     \<Longrightarrow> length dirname < length pathname"
proof -
  assume a: "(dirname, basename) = os_path_split pathname" and b: "dirname \<noteq> pathname"
  have r: "prefix (py_rstrip sep xs) xs" for xs
    unfolding py_rstrip_def
    by (metis prefix_def rev_append rev_rev_ident takeWhile_dropWhile_id)
  have "prefix dirname pathname"
    using a r [of "take (nat (py_rfind sep pathname + 1)) pathname"]
    by (auto simp: os_path_split_def Let_def take_is_prefix split: if_splits
             intro: prefix_order.trans)
  with b show ?thesis
    by (metis le_neq_implies_less prefix_length_le prefix_length_prefix prefix_order.antisym
          prefix_order.refl)
qed

text \<open>
  \<^verbatim>\<open>glob._iglob\<close> without the recursive \<^verbatim>\<open>**\<close>: a directory part that holds pattern
  characters is expanded first, to directories only.
\<close>

function iglob :: "filesystem \<Rightarrow> path \<Rightarrow> bool \<Rightarrow> path list" where
  "iglob fs pathname dironly =
     (let (dirname, basename) = os_path_split pathname in
      if \<not> has_magic pathname then
        (if basename \<noteq> [] then
           (if os_path_lexists fs pathname then [pathname] else [])
         else
           (if os_path_isdir fs dirname then [pathname] else []))
      else if dirname = [] then glob1 fs [] basename dironly
      else
        (let dirs = (if dirname \<noteq> pathname \<and> has_magic dirname
                     then iglob fs dirname True else [dirname])
         in concat (map (\<lambda>d. map (os_path_join d)
                                 (if has_magic basename then glob1 fs d basename dironly
                                  else glob0 fs d basename))
                        dirs)))"
  by pat_completeness auto
termination
  by (relation "measure (\<lambda>(fs, pathname, dironly). length pathname)")
     (auto dest: os_path_split_shorter)

declare iglob.simps [simp del]

definition glob_glob :: "filesystem \<Rightarrow> path \<Rightarrow> path list" where
  "glob_glob fs pathname = iglob fs pathname False"

section \<open>The program\<close>

subsection \<open>\<^verbatim>\<open>hash_file\<close>\<close>

text \<open>
  The reading loop of \<^verbatim>\<open>hash_file\<close>: chunks of 1024 bytes are fed to the hash object
  until a chunk is empty (the empty chunk is fed too).  The hash object is the text it
  has been fed.
\<close>

function read_loop :: "string \<Rightarrow> string \<Rightarrow> string" where
  "read_loop rest h =
     (let chunk = take 1024 rest;
          h' = h @ chunk
      in if chunk \<noteq> [] then read_loop (drop 1024 rest) h' else h')"
  by pat_completeness auto
termination
  by (relation "measure (\<lambda>(rest, h). length rest)") auto

declare read_loop.simps [simp del]

text \<open>
  \<^verbatim>\<open>hashlib.sha1\<close> is a parameter: \<open>sha1 bs\<close> is the hexadecimal digest of the bytes
  \<open>bs\<close>.  A file that cannot be opened raises the error of the open.
\<close>

definition hash_file :: "(string \<Rightarrow> string) \<Rightarrow> filesystem \<Rightarrow> path \<Rightarrow> os_error + string" where
  "hash_file sha1 fs filename =
     (case open_rb fs filename of
        Inl e \<Rightarrow> Inl e
      | Inr bytes \<Rightarrow> Inr (sha1 (read_loop bytes [])))"

subsection \<open>\<^verbatim>\<open>get_all_files\<close> and \<^verbatim>\<open>get_originals\<close>\<close>

definition default_filetypes :: "string list" where
  "default_filetypes =
     [''jpeg'', ''JPG'', ''jpg'', ''gif'', ''GIF'', ''png'', ''PNG'', ''mov'', ''MOV'', ''mp4'']"

definition get_all_files :: "filesystem \<Rightarrow> path \<Rightarrow> string list \<Rightarrow> path list" where
  "get_all_files fs base_path filetypes =
     concat (map (\<lambda>ftype. glob_glob fs (os_path_join base_path (''*.'' @ ftype))) filetypes)"

definition get_originals :: "path list \<Rightarrow> string \<Rightarrow> path list" where
  "get_originals all_images indicator =
     filter (\<lambda>p. \<not> py_in indicator (last (py_split sep p))) all_images"

subsection \<open>\<^verbatim>\<open>get_dupes\<close>\<close>

text \<open>The name of the original picture and its file type, as the loop body takes them.\<close>

definition pic_name_of :: "path \<Rightarrow> string" where
  "pic_name_of pic_path = hd (py_split CHR ''.'' (last (py_split sep pic_path)))"

definition filetype_of :: "path \<Rightarrow> string" where
  "filetype_of pic_path = drop (nat (py_rfind CHR ''.'' pic_path + 1)) pic_path"

text \<open>The candidates of one original by file name: the comprehension over the glob.\<close>

definition name_dupes :: "filesystem \<Rightarrow> path \<Rightarrow> path \<Rightarrow> string \<Rightarrow> path list" where
  "name_dupes fs base_path pic_path indicator =
     filter (\<lambda>p. py_in indicator (last (py_split sep p)) \<and> py_endswith p (filetype_of pic_path))
       (glob_glob fs (os_path_join base_path (pic_name_of pic_path @ ''*'')))"

text \<open>
  The comprehension that keeps the candidates with the hash of the original: the first
  \<^verbatim>\<open>hash_file\<close> that raises ends it.
\<close>

fun hash_dupes :: "(string \<Rightarrow> string) \<Rightarrow> filesystem \<Rightarrow> string \<Rightarrow> path list \<Rightarrow> os_error + path list" where
  "hash_dupes sha1 fs original_hash [] = Inr []"
| "hash_dupes sha1 fs original_hash (dupe # cur_dupes) =
     (case hash_file sha1 fs dupe of
        Inl e \<Rightarrow> Inl e
      | Inr h \<Rightarrow>
          (case hash_dupes sha1 fs original_hash cur_dupes of
             Inl e \<Rightarrow> Inl e
           | Inr kept \<Rightarrow> Inr (if h = original_hash then dupe # kept else kept)))"

text \<open>The duplicate set of one original: the loop body up to the test of its length.\<close>

definition cur_dupes_of ::
  "(string \<Rightarrow> string) \<Rightarrow> filesystem \<Rightarrow> path \<Rightarrow> path \<Rightarrow> string \<Rightarrow> bool \<Rightarrow> os_error + path list" where
  "cur_dupes_of sha1 fs base_path pic_path indicator verify_hashes =
     (let cur_dupes = name_dupes fs base_path pic_path indicator
      in if verify_hashes then
           (case hash_file sha1 fs pic_path of
              Inl e \<Rightarrow> Inl e
            | Inr original_hash \<Rightarrow> hash_dupes sha1 fs original_hash cur_dupes)
         else Inr cur_dupes)"

fun get_dupes_loop ::
  "(string \<Rightarrow> string) \<Rightarrow> filesystem \<Rightarrow> path \<Rightarrow> string \<Rightarrow> bool \<Rightarrow> path list \<Rightarrow> path list list
     \<Rightarrow> os_error + path list list" where
  "get_dupes_loop sha1 fs base_path indicator verify_hashes [] dupes = Inr dupes"
| "get_dupes_loop sha1 fs base_path indicator verify_hashes (pic_path # originals) dupes =
     (case cur_dupes_of sha1 fs base_path pic_path indicator verify_hashes of
        Inl e \<Rightarrow> Inl e
      | Inr cur_dupes \<Rightarrow>
          get_dupes_loop sha1 fs base_path indicator verify_hashes originals
            (if length cur_dupes \<noteq> 0 then dupes @ [cur_dupes] else dupes))"

definition get_dupes ::
  "(string \<Rightarrow> string) \<Rightarrow> filesystem \<Rightarrow> path \<Rightarrow> path list \<Rightarrow> string \<Rightarrow> bool
     \<Rightarrow> os_error + path list list" where
  "get_dupes sha1 fs base_path originals indicator verify_hashes =
     get_dupes_loop sha1 fs base_path indicator verify_hashes originals []"

subsection \<open>\<^verbatim>\<open>remove_dupes\<close> and \<^verbatim>\<open>main\<close>\<close>

text \<open>
  What a run does besides changing the store is kept as its list of events: every
  \<^verbatim>\<open>print\<close>, and every call of \<^verbatim>\<open>os.remove\<close> with its path, in order.  An outcome
  is the uncaught error if there is one, the events, and the store left behind.
\<close>

datatype event = Printed string | OsRemove path

type_synonym outcome = "os_error option \<times> event list \<times> filesystem"

text \<open>The outcome of a computation that runs after the events \<open>evs\<close>.\<close>

definition after :: "event list \<Rightarrow> outcome \<Rightarrow> outcome" where
  "after evs res = (case res of (r, evs', fs) \<Rightarrow> (r, evs @ evs', fs))"

definition tab :: char where
  "tab = CHR 0x09"

definition removing_header :: string where
  "removing_header = tab # ''Removing:''"

definition dupe_line :: "path \<Rightarrow> string" where
  "dupe_line cur_dupe = [tab, tab] @ cur_dupe"

definition missing_line :: "path \<Rightarrow> string" where
  "missing_line cur_dupe =
     [tab, tab] @ ''[!] Couldn'' @ [CHR 0x27] @ ''t find duplicate file: '' @ cur_dupe"

text \<open>
  The inner loop of \<^verbatim>\<open>remove_dupes\<close> over one duplicate set.  Only
  \<^verbatim>\<open>FileNotFoundError\<close> is caught; any other error of \<^verbatim>\<open>os.remove\<close> leaves the loop.
\<close>

fun remove_dupeset :: "path list \<Rightarrow> bool \<Rightarrow> filesystem \<Rightarrow> outcome" where
  "remove_dupeset [] do_del fs = (None, [], fs)"
| "remove_dupeset (cur_dupe # cur_dupeset) do_del fs =
     (if do_del then
        (case os_remove fs cur_dupe of
           Inr fs' \<Rightarrow>
             after [Printed (dupe_line cur_dupe), OsRemove cur_dupe]
               (remove_dupeset cur_dupeset do_del fs')
         | Inl e \<Rightarrow>
             if e = FileNotFoundError then
               after [Printed (dupe_line cur_dupe), OsRemove cur_dupe,
                      Printed (missing_line cur_dupe)]
                 (remove_dupeset cur_dupeset do_del fs)
             else (Some e, [Printed (dupe_line cur_dupe), OsRemove cur_dupe], fs))
      else after [Printed (dupe_line cur_dupe)] (remove_dupeset cur_dupeset do_del fs))"

fun remove_dupes :: "path list list \<Rightarrow> bool \<Rightarrow> filesystem \<Rightarrow> outcome" where
  "remove_dupes [] do_del fs = (None, [], fs)"
| "remove_dupes (cur_dupeset # all_dupes) do_del fs =
     after [Printed removing_header]
       (case remove_dupeset cur_dupeset do_del fs of
          (Some e, evs, fs') \<Rightarrow> (Some e, evs, fs')
        | (None, evs, fs') \<Rightarrow> after evs (remove_dupes all_dupes do_del fs'))"

text \<open>The loop of \<^verbatim>\<open>main\<close> over the subdirectories, given the recursive call.\<close>

fun for_dirs :: "(path \<Rightarrow> filesystem \<Rightarrow> outcome option) \<Rightarrow> path list \<Rightarrow> filesystem \<Rightarrow> outcome option" where
  "for_dirs call [] fs = Some (None, [], fs)"
| "for_dirs call (cd # dirs) fs =
     (case call cd fs of
        None \<Rightarrow> None
      | Some (Some e, evs, fs') \<Rightarrow> Some (Some e, evs, fs')
      | Some (None, evs, fs') \<Rightarrow> map_option (after evs) (for_dirs call dirs fs'))"

text \<open>
  \<^verbatim>\<open>main\<close> calls itself for every subdirectory.  The first argument bounds the depth
  of these calls; \<open>None\<close> is a run that needs more depth.
\<close>

primrec main ::
  "nat \<Rightarrow> (string \<Rightarrow> string) \<Rightarrow> path \<Rightarrow> bool \<Rightarrow> bool \<Rightarrow> bool \<Rightarrow> filesystem \<Rightarrow> outcome option" where
  "main 0 sha1 base_path recursive verify_hash do_del fs = None"
| "main (Suc depth) sha1 base_path recursive verify_hash do_del fs =
     map_option (after [Printed (''Checking: '' @ base_path)])
       (let root_images = get_all_files fs base_path default_filetypes;
            originals = get_originals root_images '' ''
        in case get_dupes sha1 fs base_path originals '' '' verify_hash of
             Inl e \<Rightarrow> Some (Some e, [], fs)
           | Inr dupes \<Rightarrow>
               map_option
                 (after (if length dupes = 0 then [Printed (tab # ''No duplicates found'')] else []))
                 (case remove_dupes dupes do_del fs of
                    (Some e, evs, fs') \<Rightarrow> Some (Some e, evs, fs')
                  | (None, evs, fs') \<Rightarrow>
                      if recursive then
                        (case os_listdir fs' base_path of
                           Inl e \<Rightarrow> Some (Some e, evs, fs')
                         | Inr names \<Rightarrow>
                             map_option (after evs)
                               (for_dirs (\<lambda>cd. main depth sha1 cd recursive verify_hash do_del)
                                  (map (os_path_join base_path)
                                     (filter (\<lambda>d. os_path_isdir fs' (os_path_join base_path d))
                                        names))
                                  fs'))
                      else Some (None, evs, fs')))"

text \<open>
  A path that the classifier of \<^verbatim>\<open>main\<close> does not take for an original: the marker
  of \<^verbatim>\<open>main\<close>, a space, occurs in its final segment.
\<close>

definition marked :: "path \<Rightarrow> bool" where
  "marked p = py_in '' '' (last (py_split sep p))"

section \<open>Example directories\<close>

text \<open>An original, its copy, a copy with other bytes, and a picture without copies.\<close>

definition cat_dir :: filesystem where
  "cat_dir =
     [(''d'', Dir True),
      (''d/cat.jpg'', File ''meow'' True True),
      (''d/cat (1).jpg'', File ''meow'' True True),
      (''d/cat (2).jpg'', File ''purr'' True True),
      (''d/dog.png'', File ''woof'' True True)]"

text \<open>The same names, with a copy that cannot be read.\<close>

definition locked_dir :: filesystem where
  "locked_dir =
     [(''d'', Dir True),
      (''d/cat.jpg'', File ''meow'' True True),
      (''d/cat (1).jpg'', File ''meow'' False True)]"

text \<open>A directory where the first copy has vanished, and a subdirectory named like a copy.\<close>

definition gone_dir :: filesystem where
  "gone_dir =
     [(''d'', Dir True),
      (''d/cat (2).jpg'', File ''meow'' True True),
      (''d/sub (1).jpg'', Dir True)]"

text \<open>Two originals, the name of one a prefix of the name of the other, and one copy.\<close>

definition photo_dir :: filesystem where
  "photo_dir =
     [(''d'', Dir True),
      (''d/photo.jpg'', File ''one'' True True),
      (''d/photo2.jpg'', File ''two'' True True),
      (''d/photo2 (1).jpg'', File ''two'' True True)]"

text \<open>An original with brackets in its name, its copy, and a file of another picture.\<close>

definition bracket_dir :: filesystem where
  "bracket_dir =
     [(''d'', Dir True),
      (''d/a[1].jpg'', File ''one'' True True),
      (''d/a[1] (1).jpg'', File ''one'' True True),
      (''d/a1 b.jpg'', File ''two'' True True)]"


section \<open>Strings: what the split and the membership test compute\<close>

lemma py_split_nonempty: "py_split c s \<noteq> []"
  by (induction s) (auto split: list.splits)

lemma py_split_no_sep: "c \<notin> set s \<Longrightarrow> py_split c s = [s]"
  by (induction s) auto

lemma py_split_single: "py_split c s = [w] \<Longrightarrow> c \<notin> set s"
  by (induction s arbitrary: w) (auto split: list.splits if_splits simp: py_split_nonempty)

lemma last_py_split: "last (py_split c s) = rev (takeWhile (\<lambda>x. x \<noteq> c) (rev s))"
proof (induction s)
  case Nil
  show ?case by simp
next
  case (Cons x xs)
  show ?case
  proof (cases "x = c")
    case True
    then show ?thesis
      using Cons by (simp add: py_split_nonempty takeWhile_append)
  next
    case False
    obtain w ws where s: "py_split c xs = w # ws"
      using py_split_nonempty [of c xs] by (cases "py_split c xs") auto
    show ?thesis
    proof (cases "ws = []")
      case True
      with s have "c \<notin> set xs" by (auto dest: py_split_single)
      then show ?thesis using False by (simp add: py_split_no_sep takeWhile_append)
    next
      case ne: False
      have "c \<in> set xs" using s ne py_split_no_sep [of c xs] by auto
      then show ?thesis using False s ne Cons by (auto simp: takeWhile_append)
    qed
  qed
qed

lemma last_py_split_dir:
  "c \<notin> set name \<Longrightarrow> last (py_split c (dir @ c # name)) = name"
  by (simp add: last_py_split takeWhile_append)

lemma last_py_split_plain:
  "c \<notin> set name \<Longrightarrow> last (py_split c name) = name"
  by (simp add: py_split_no_sep)

lemma py_in_sublist: "py_in sub s \<longleftrightarrow> sublist sub s"
  by (induction s) (auto simp: sublist_Cons_right)


section \<open>The classifier\<close>

text \<open>
  Claim C4.  A path is placed in the originals exactly when it is one of the discovered
  paths and the marker does not occur in its final segment.  The final segment is the
  text after the last separator (the whole path when there is none): whatever the
  directory part \<open>dir\<close> holds, the marker or not, the test looks at \<open>name\<close> only.  So
  a path whose final segment holds the marker is never an original.
\<close>

theorem classifier_final_segment_only:
  "(sep \<notin> set name \<longrightarrow>
      (dir @ sep # name \<in> set (get_originals all_images indicator)
         \<longleftrightarrow> dir @ sep # name \<in> set all_images \<and> \<not> sublist indicator name))
   \<and> (sep \<notin> set name \<longrightarrow>
      (name \<in> set (get_originals all_images indicator)
         \<longleftrightarrow> name \<in> set all_images \<and> \<not> sublist indicator name))"
  by (simp add: get_originals_def last_py_split_dir last_py_split_plain py_in_sublist)

theorem classifier_final_segment_only_witness:
  "sep \<notin> set ''cat.jpg'' \<and> sep \<notin> set ''cat (1).jpg''
   \<and> ''my photos/cat.jpg'' \<in> set (get_originals [''my photos/cat.jpg'', ''my photos/cat (1).jpg''] '' '')
   \<and> ''my photos/cat (1).jpg'' \<notin> set (get_originals [''my photos/cat.jpg'', ''my photos/cat (1).jpg''] '' '')"
  using classifier_final_segment_only
          [of "''cat.jpg''" "''my photos''" "[''my photos/cat.jpg'', ''my photos/cat (1).jpg'']" "'' ''"]
        classifier_final_segment_only
          [of "''cat (1).jpg''" "''my photos''" "[''my photos/cat.jpg'', ''my photos/cat (1).jpg'']" "'' ''"]
  by (simp add: sep_def sublist_Cons_right)

section \<open>The resolver\<close>

lemma read_loop_all: "read_loop rest h = h @ rest"
proof (induction rest h rule: read_loop.induct)
  case (1 rest h)
  show ?case
  proof (cases "take 1024 rest = []")
    case True
    then have "rest = []" by simp
    then show ?thesis by (subst read_loop.simps) (simp add: Let_def)
  next
    case False
    then have "read_loop rest h = read_loop (drop 1024 rest) (h @ take 1024 rest)"
      by (subst read_loop.simps) (simp add: Let_def)
    also have "\<dots> = (h @ take 1024 rest) @ drop 1024 rest"
      by (rule "1.IH" [OF refl refl False])
    finally show ?thesis by simp
  qed
qed

lemma hash_file_content:
  "hash_file sha1 fs p = (case open_rb fs p of Inl e \<Rightarrow> Inl e | Inr b \<Rightarrow> Inr (sha1 b))"
  by (simp add: hash_file_def read_loop_all split: sum.splits)

lemma hash_dupes_readable:
  "\<forall>c \<in> set cs. \<exists>h. hash_file sha1 fs c = Inr h \<Longrightarrow>
   hash_dupes sha1 fs h0 cs = Inr (filter (\<lambda>c. hash_file sha1 fs c = Inr h0) cs)"
  by (induction cs) auto

lemma hash_dupes_subset:
  "hash_dupes sha1 fs h0 cs = Inr kept \<Longrightarrow> set kept \<subseteq> set cs"
  by (induction cs arbitrary: kept) (auto split: sum.splits if_splits)

lemma hash_dupes_error:
  "f \<in> set cs \<Longrightarrow> hash_file sha1 fs f = Inl e \<Longrightarrow> \<exists>e'. hash_dupes sha1 fs h0 cs = Inl e'"
  by (induction cs) (auto split: sum.splits)

lemma hash_dupes_error_origin:
  "hash_dupes sha1 fs h0 cs = Inl e \<Longrightarrow> \<exists>f \<in> set cs. hash_file sha1 fs f = Inl e"
  by (induction cs) (auto split: sum.splits)

lemma cur_dupes_of_subset:
  "cur_dupes_of sha1 fs base_path pic_path indicator verify = Inr ds \<Longrightarrow>
   set ds \<subseteq> set (name_dupes fs base_path pic_path indicator)"
  by (auto simp: cur_dupes_of_def Let_def split: if_splits sum.splits dest: hash_dupes_subset)

lemma cur_dupes_of_error_origin:
  "cur_dupes_of sha1 fs base_path pic_path indicator verify = Inl e \<Longrightarrow>
   \<exists>f. hash_file sha1 fs f = Inl e"
  by (auto simp: cur_dupes_of_def Let_def split: if_splits sum.splits dest: hash_dupes_error_origin)

lemma get_dupes_loop_result:
  "get_dupes_loop sha1 fs base_path indicator verify originals acc = Inr dupes \<Longrightarrow>
   map Inr dupes =
     map Inr acc @ filter (\<lambda>r. r \<noteq> Inr [])
       (map (\<lambda>pic. cur_dupes_of sha1 fs base_path pic indicator verify) originals)"
  by (induction originals arbitrary: acc) (auto split: sum.splits if_splits)

lemma get_dupes_loop_total:
  "\<forall>pic \<in> set originals. \<exists>ds. cur_dupes_of sha1 fs base_path pic indicator verify = Inr ds \<Longrightarrow>
   \<exists>dupes. get_dupes_loop sha1 fs base_path indicator verify originals acc = Inr dupes"
  by (induction originals arbitrary: acc) (auto split: sum.splits)

lemma get_dupes_loop_error:
  "pic \<in> set originals \<Longrightarrow> cur_dupes_of sha1 fs base_path pic indicator verify = Inl e \<Longrightarrow>
   \<exists>e'. get_dupes_loop sha1 fs base_path indicator verify originals acc = Inl e'"
  by (induction originals arbitrary: acc) (auto split: sum.splits)

lemma get_dupes_loop_error_origin:
  "get_dupes_loop sha1 fs base_path indicator verify originals acc = Inl e \<Longrightarrow>
   \<exists>pic \<in> set originals. cur_dupes_of sha1 fs base_path pic indicator verify = Inl e"
  by (induction originals arbitrary: acc) (auto split: sum.splits)


lemma cur_dupes_of_verified:
  assumes "hash_file sha1 fs pic = Inr h"
    and "\<forall>c \<in> set (name_dupes fs base_path pic indicator). \<exists>h. hash_file sha1 fs c = Inr h"
  shows "cur_dupes_of sha1 fs base_path pic indicator True =
         Inr (filter (\<lambda>c. hash_file sha1 fs c = hash_file sha1 fs pic)
                (name_dupes fs base_path pic indicator))"
  using assms by (simp add: cur_dupes_of_def Let_def hash_dupes_readable)

lemma filter_map_Inr:
  "filter (\<lambda>r. r \<noteq> Inr []) (map (\<lambda>x. Inr (f x)) xs) = map Inr (filter (\<lambda>ds. ds \<noteq> []) (map f xs))"
  by (induction xs) auto



text \<open>
  Claim C8.  The list returned by \<^verbatim>\<open>get_dupes\<close> holds no empty set: it is the
  sequence of the duplicate sets of the originals, in order, without the empty ones.
  An original whose set is empty adds nothing.
\<close>

theorem no_empty_duplicate_set:
  assumes "get_dupes sha1 fs base_path originals indicator verify = Inr dupes"
  shows "[] \<notin> set dupes \<and>
         map Inr dupes = filter (\<lambda>r. r \<noteq> Inr [])
           (map (\<lambda>pic. cur_dupes_of sha1 fs base_path pic indicator verify) originals)"
proof -
  have eq: "map Inr dupes = filter (\<lambda>r. r \<noteq> Inr [])
      (map (\<lambda>pic. cur_dupes_of sha1 fs base_path pic indicator verify) originals)"
    using get_dupes_loop_result [of sha1 fs base_path indicator verify originals "[]" dupes] assms
    by (simp add: get_dupes_def)
  have "Inr [] \<notin> set (map Inr dupes :: (os_error + path list) list)"
    unfolding eq by simp
  then have "[] \<notin> set dupes" by auto
  with eq show ?thesis by simp
qed

theorem no_empty_duplicate_set_witness:
  "get_dupes (\<lambda>b. b) cat_dir ''d'' [''d/cat.jpg'', ''d/dog.png''] '' '' False
     = Inr [[''d/cat (1).jpg'', ''d/cat (2).jpg'']]
   \<and> [] \<notin> set [[''d/cat (1).jpg'', ''d/cat (2).jpg'']]
   \<and> cur_dupes_of (\<lambda>b. b) cat_dir ''d'' ''d/dog.png'' '' '' False = Inr []"
proof -
  have e: "get_dupes (\<lambda>b. b) cat_dir ''d'' [''d/cat.jpg'', ''d/dog.png''] '' '' False
             = Inr [[''d/cat (1).jpg'', ''d/cat (2).jpg'']]"
    by code_simp
  have d: "cur_dupes_of (\<lambda>b. b) cat_dir ''d'' ''d/dog.png'' '' '' False = Inr []"
    by code_simp
  show ?thesis
    using no_empty_duplicate_set [OF e] e d by simp
qed

text \<open>
  Claim C2.  With verification on, and every hashed file readable, the duplicate set of
  an original is the list of its candidates by name whose digest equals the digest of
  the original; a candidate with another digest is left out and no error is raised.
  The sets are returned in the order of the originals, the empty ones left out.
\<close>

theorem verified_duplicate_sets:
  assumes "\<forall>pic \<in> set originals.
             (\<exists>h. hash_file sha1 fs pic = Inr h) \<and>
             (\<forall>c \<in> set (name_dupes fs base_path pic indicator). \<exists>h. hash_file sha1 fs c = Inr h)"
  shows "get_dupes sha1 fs base_path originals indicator True =
         Inr (filter (\<lambda>ds. ds \<noteq> [])
                (map (\<lambda>pic. filter (\<lambda>c. hash_file sha1 fs c = hash_file sha1 fs pic)
                               (name_dupes fs base_path pic indicator))
                     originals))"
proof -
  let ?set = "\<lambda>pic. filter (\<lambda>c. hash_file sha1 fs c = hash_file sha1 fs pic)
                        (name_dupes fs base_path pic indicator)"
  have body: "cur_dupes_of sha1 fs base_path pic indicator True = Inr (?set pic)"
    if "pic \<in> set originals" for pic
    using assms that cur_dupes_of_verified [of sha1 fs pic _ base_path indicator] by blast
  then obtain dupes where
    d: "get_dupes_loop sha1 fs base_path indicator True originals [] = Inr dupes"
    using get_dupes_loop_total [of originals sha1 fs base_path indicator True "[]"] by blast
  have m: "map (\<lambda>pic. cur_dupes_of sha1 fs base_path pic indicator True) originals
        = map (\<lambda>pic. Inr (?set pic)) originals"
    using body by simp
  have r: "map Inr dupes = filter (\<lambda>r. r \<noteq> Inr [])
      (map (\<lambda>pic. cur_dupes_of sha1 fs base_path pic indicator True) originals)"
    using get_dupes_loop_result [OF d] by simp
  have "map Inr dupes = filter (\<lambda>r. r \<noteq> Inr [])
      (map (\<lambda>pic. Inr (?set pic) :: os_error + path list) originals)"
    by (simp only: r m)
  also have "\<dots> = map Inr (filter (\<lambda>ds. ds \<noteq> []) (map ?set originals))"
    by (rule filter_map_Inr)
  finally have "dupes = filter (\<lambda>ds. ds \<noteq> []) (map ?set originals)"
    by (simp add: inj_map_eq_map)
  with d show ?thesis by (simp add: get_dupes_def)
qed

theorem verified_duplicate_sets_witness:
  "get_dupes (\<lambda>b. b) cat_dir ''d'' [''d/cat.jpg''] '' '' True = Inr [[''d/cat (1).jpg'']]"
proof -
  have nd: "name_dupes cat_dir ''d'' ''d/cat.jpg'' '' '' = [''d/cat (1).jpg'', ''d/cat (2).jpg'']"
    by code_simp
  have h0: "hash_file (\<lambda>b. b) cat_dir ''d/cat.jpg'' = Inr ''meow''"
    by (simp add: hash_file_content open_rb_def cat_dir_def)
  have h1: "hash_file (\<lambda>b. b) cat_dir ''d/cat (1).jpg'' = Inr ''meow''"
    by (simp add: hash_file_content open_rb_def cat_dir_def)
  have h2: "hash_file (\<lambda>b. b) cat_dir ''d/cat (2).jpg'' = Inr ''purr''"
    by (simp add: hash_file_content open_rb_def cat_dir_def)
  show ?thesis
    using verified_duplicate_sets [of "[''d/cat.jpg'']" "\<lambda>b. b" cat_dir "''d''" "'' ''"]
    by (simp add: nd h0 h1 h2)
qed

text \<open>
  Claim C7.  With verification on, a file that cannot be opened for reading, be it an
  original or one of its candidates by name, makes \<^verbatim>\<open>get_dupes\<close> end with an error
  of an open: nothing catches it and no list of sets is returned.
\<close>

theorem digest_error_propagates:
  assumes "pic \<in> set originals"
    and "f = pic \<or> f \<in> set (name_dupes fs base_path pic indicator)"
    and "open_rb fs f = Inl e"
  shows "\<exists>e' f'. get_dupes sha1 fs base_path originals indicator True = Inl e'
           \<and> open_rb fs f' = Inl e'"
proof -
  have hf: "hash_file sha1 fs f = Inl e"
    using assms(3) by (simp add: hash_file_def)
  have "\<exists>e1. cur_dupes_of sha1 fs base_path pic indicator True = Inl e1"
  proof (cases "hash_file sha1 fs pic")
    case (Inl e0)
    then show ?thesis by (simp add: cur_dupes_of_def)
  next
    case (Inr h)
    with hf assms(2) have "f \<in> set (name_dupes fs base_path pic indicator)" by auto
    from hash_dupes_error [OF this hf, of h] Inr show ?thesis
      by (auto simp: cur_dupes_of_def)
  qed
  then obtain e' where
    e': "get_dupes_loop sha1 fs base_path indicator True originals [] = Inl e'"
    using get_dupes_loop_error [OF assms(1)] by blast
  then obtain f' where "hash_file sha1 fs f' = Inl e'"
    using get_dupes_loop_error_origin cur_dupes_of_error_origin by blast
  then have "open_rb fs f' = Inl e'"
    by (auto simp: hash_file_def split: sum.splits)
  with e' show ?thesis by (auto simp: get_dupes_def)
qed

theorem digest_error_propagates_witness:
  "\<exists>e' f'. get_dupes (\<lambda>b. b) locked_dir ''d'' [''d/cat.jpg''] '' '' True = Inl e'
      \<and> open_rb locked_dir f' = Inl e'"
proof -
  have nd: "name_dupes locked_dir ''d'' ''d/cat.jpg'' '' '' = [''d/cat (1).jpg'']"
    by code_simp
  have o: "open_rb locked_dir ''d/cat (1).jpg'' = Inl PermissionError"
    by (simp add: open_rb_def locked_dir_def)
  show ?thesis
    using digest_error_propagates
            [of "''d/cat.jpg''" "[''d/cat.jpg'']" "''d/cat (1).jpg''" locked_dir "''d''" "'' ''"
                PermissionError "\<lambda>b. b"]
    by (simp add: nd o)
qed

section \<open>The remover\<close>

lemma after_after: "after a (after b res) = after (a @ b) res"
  by (cases res) (simp add: after_def)

lemma after_Nil: "after [] res = res"
  by (cases res) (simp add: after_def)

lemma after_triple: "after a (r, evs, fs) = (r, a @ evs, fs)"
  by (simp add: after_def)

lemma after_eq_iff:
  "after a res = (r, evs, fs) \<longleftrightarrow> (\<exists>evs'. res = (r, evs', fs) \<and> evs = a @ evs')"
  by (cases res) (auto simp: after_def)

lemma after_case_outcome:
  "(case after a res of (Some e, evs, fs') \<Rightarrow> (Some e, evs, fs')
      | (None, evs, fs') \<Rightarrow> after evs (k fs'))
   = after a (case res of (Some e, evs, fs') \<Rightarrow> (Some e, evs, fs')
      | (None, evs, fs') \<Rightarrow> after evs (k fs'))"
  by (cases res) (auto simp: after_def split: option.splits prod.splits)

lemma remove_dupeset_append_commit:
  "remove_dupeset (xs @ ys) True fs =
     (case remove_dupeset xs True fs of
        (Some e, evs, fs') \<Rightarrow> (Some e, evs, fs')
      | (None, evs, fs') \<Rightarrow> after evs (remove_dupeset ys True fs'))"
proof (induction xs arbitrary: fs)
  case Nil
  show ?case by (simp add: after_Nil)
next
  case (Cons x xs)
  show ?case
    by (cases "os_remove fs x") (simp_all add: Cons.IH after_case_outcome)
qed

lemma remove_dupeset_append_dry:
  "remove_dupeset (xs @ ys) False fs =
     (case remove_dupeset xs False fs of
        (Some e, evs, fs') \<Rightarrow> (Some e, evs, fs')
      | (None, evs, fs') \<Rightarrow> after evs (remove_dupeset ys False fs'))"
proof (induction xs arbitrary: fs)
  case Nil
  show ?case by (simp add: after_Nil)
next
  case (Cons x xs)
  show ?case
    by (simp add: Cons.IH after_case_outcome)
qed

lemma remove_dupeset_append:
  "remove_dupeset (xs @ ys) do_del fs =
     (case remove_dupeset xs do_del fs of
        (Some e, evs, fs') \<Rightarrow> (Some e, evs, fs')
      | (None, evs, fs') \<Rightarrow> after evs (remove_dupeset ys do_del fs'))"
  by (cases do_del) (simp_all only: remove_dupeset_append_commit remove_dupeset_append_dry)

lemma remove_dupes_append:
  "remove_dupes (A @ B) do_del fs =
     (case remove_dupes A do_del fs of
        (Some e, evs, fs') \<Rightarrow> (Some e, evs, fs')
      | (None, evs, fs') \<Rightarrow> after evs (remove_dupes B do_del fs'))"
proof (induction A arbitrary: fs)
  case Nil
  show ?case by (simp add: after_Nil)
next
  case (Cons xs A)
  show ?case
    by (cases "remove_dupeset xs do_del fs")
       (auto simp: Cons.IH after_def split: option.splits prod.splits)
qed

lemma remove_dupes_last_set:
  "remove_dupes (A @ [xs]) do_del fs =
     (case remove_dupes A do_del fs of
        (Some e, evs, fs') \<Rightarrow> (Some e, evs, fs')
      | (None, evs, fs') \<Rightarrow> after (evs @ [Printed removing_header]) (remove_dupeset xs do_del fs'))"
  by (cases "remove_dupes A do_del fs")
     (auto simp: remove_dupes_append after_def split: option.splits prod.splits)


lemma map_of_filter_key:
  "map_of (filter (\<lambda>e. fst e \<noteq> p) fs) q = (if q = p then None else map_of fs q)"
  by (induction fs) auto

lemma os_remove_frame:
  "os_remove fs p = Inr fs' \<Longrightarrow> map_of fs' q = (if q = p then None else map_of fs q)"
  by (auto simp: os_remove_def map_of_filter_key split: option.splits node.splits if_splits)

lemma remove_dupeset_dry:
  "remove_dupeset xs False fs = (None, map (\<lambda>p. Printed (dupe_line p)) xs, fs)"
  by (induction xs) (simp_all add: after_def)

lemma remove_dupes_dry:
  "\<exists>evs. remove_dupes dss False fs = (None, evs, fs) \<and> (\<forall>p. OsRemove p \<notin> set evs)"
proof (induction dss)
  case Nil
  show ?case by simp
next
  case (Cons ds dss)
  then obtain evs where "remove_dupes dss False fs = (None, evs, fs)" "\<forall>p. OsRemove p \<notin> set evs"
    by blast
  then show ?case
    by (auto simp: remove_dupeset_dry after_def)
qed

lemma remove_dupeset_touches:
  "remove_dupeset xs do_del fs = (r, evs, fs') \<Longrightarrow>
   (\<forall>p. OsRemove p \<in> set evs \<longrightarrow> p \<in> set xs) \<and>
   (\<forall>q. q \<notin> set xs \<longrightarrow> map_of fs' q = map_of fs q)"
proof (induction xs arbitrary: fs evs fs' r)
  case Nil
  then show ?case by simp
next
  case (Cons x xs)
  show ?case
  proof (cases do_del)
    case False
    with Cons.prems show ?thesis by (auto simp: remove_dupeset_dry after_def)
  next
    case True
    show ?thesis
    proof (cases "os_remove fs x")
      case (Inr fs1)
      with True Cons.prems obtain evs1 where
        rec: "remove_dupeset xs do_del fs1 = (r, evs1, fs')"
        and evs: "evs = [Printed (dupe_line x), OsRemove x] @ evs1"
        by (auto simp: after_eq_iff)
      from Cons.IH [OF rec] os_remove_frame [OF Inr] evs show ?thesis by auto
    next
      case (Inl e)
      show ?thesis
      proof (cases "e = FileNotFoundError")
        case False
        with Inl True Cons.prems show ?thesis by auto
      next
        case fnf: True
        with Inl True Cons.prems obtain evs1 where
          rec: "remove_dupeset xs do_del fs = (r, evs1, fs')"
          and evs: "evs = [Printed (dupe_line x), OsRemove x, Printed (missing_line x)] @ evs1"
          by (auto simp: after_eq_iff)
        from Cons.IH [OF rec] evs show ?thesis by auto
      qed
    qed
  qed
qed

lemma remove_dupes_touches:
  "remove_dupes dss do_del fs = (r, evs, fs') \<Longrightarrow>
   (\<forall>p. OsRemove p \<in> set evs \<longrightarrow> p \<in> set (concat dss)) \<and>
   (\<forall>q. q \<notin> set (concat dss) \<longrightarrow> map_of fs' q = map_of fs q)"
proof (induction dss arbitrary: fs evs fs' r)
  case Nil
  then show ?case by simp
next
  case (Cons ds dss)
  obtain r1 evs1 fs1 where one: "remove_dupeset ds do_del fs = (r1, evs1, fs1)"
    by (cases "remove_dupeset ds do_del fs") auto
  note t1 = remove_dupeset_touches [OF one]
  show ?case
  proof (cases r1)
    case (Some e)
    with one Cons.prems have "evs = Printed removing_header # evs1" "fs' = fs1"
      by (auto simp: after_def)
    with t1 show ?thesis by auto
  next
    case None
    with one Cons.prems obtain evs2 where
      rec: "remove_dupes dss do_del fs1 = (r, evs2, fs')"
      and evs: "evs = Printed removing_header # evs1 @ evs2"
      by (auto simp: after_eq_iff)
    from Cons.IH [OF rec] t1 evs show ?thesis by auto
  qed
qed

lemma get_dupes_marker:
  assumes "get_dupes sha1 fs base_path originals indicator verify = Inr dupes"
    and "ds \<in> set dupes" and "d \<in> set ds"
  shows "py_in indicator (last (py_split sep d))"
proof -
  have eq: "map Inr dupes = filter (\<lambda>r. r \<noteq> Inr [])
      (map (\<lambda>pic. cur_dupes_of sha1 fs base_path pic indicator verify) originals)"
    using get_dupes_loop_result [of sha1 fs base_path indicator verify originals "[]" dupes] assms(1)
    by (simp add: get_dupes_def)
  have "Inr ds \<in> set (map Inr dupes :: (os_error + path list) list)"
    using assms(2) by simp
  then have "Inr ds \<in> set (filter (\<lambda>r. r \<noteq> Inr [])
      (map (\<lambda>pic. cur_dupes_of sha1 fs base_path pic indicator verify) originals))"
    by (simp only: eq)
  then have "Inr ds \<in> set (map (\<lambda>pic. cur_dupes_of sha1 fs base_path pic indicator verify) originals)"
    by simp
  then obtain pic where "cur_dupes_of sha1 fs base_path pic indicator verify = Inr ds"
    by auto
  then have "d \<in> set (name_dupes fs base_path pic indicator)"
    using cur_dupes_of_subset assms(3) by blast
  then show ?thesis by (simp add: name_dupes_def)
qed

lemma for_dirs_marked:
  assumes "\<And>cd fs r evs fs'. call cd fs = Some (r, evs, fs') \<Longrightarrow>
            (\<forall>p. OsRemove p \<in> set evs \<longrightarrow> marked p) \<and>
            (\<forall>q. \<not> marked q \<longrightarrow> map_of fs' q = map_of fs q)"
    and "for_dirs call dirs fs = Some (r, evs, fs')"
  shows "(\<forall>p. OsRemove p \<in> set evs \<longrightarrow> marked p) \<and>
         (\<forall>q. \<not> marked q \<longrightarrow> map_of fs' q = map_of fs q)"
  using assms(2)
proof (induction dirs arbitrary: fs evs fs' r)
  case Nil
  then show ?case by simp
next
  case (Cons cd dirs)
  from Cons.prems obtain r1 evs1 fs1 where one: "call cd fs = Some (r1, evs1, fs1)"
    by (cases "call cd fs") auto
  note t1 = assms(1) [OF one]
  show ?case
  proof (cases r1)
    case (Some e)
    with one Cons.prems have "evs = evs1" "fs' = fs1" by auto
    with t1 show ?thesis by simp
  next
    case None
    with one Cons.prems obtain evs2 where
      rec: "for_dirs call dirs fs1 = Some (r, evs2, fs')" and evs: "evs = evs1 @ evs2"
      by (auto simp: after_eq_iff)
    from Cons.IH [OF rec] t1 evs show ?thesis by auto
  qed
qed

lemma main_marked:
  "main depth sha1 base_path recursive verify do_del fs = Some (r, evs, fs') \<Longrightarrow>
   (\<forall>p. OsRemove p \<in> set evs \<longrightarrow> marked p) \<and>
   (\<forall>q. \<not> marked q \<longrightarrow> map_of fs' q = map_of fs q)"
proof (induction depth arbitrary: base_path fs r evs fs')
  case 0
  then show ?case by simp
next
  case (Suc depth)
  let ?originals = "get_originals (get_all_files fs base_path default_filetypes) '' ''"
  show ?case
  proof (cases "get_dupes sha1 fs base_path ?originals '' '' verify")
    case (Inl e)
    with Suc.prems show ?thesis by (auto simp: after_def)
  next
    case (Inr dupes)
    have mk: "\<forall>d \<in> set (concat dupes). marked d"
      using get_dupes_marker [OF Inr] by (auto simp: marked_def)
    obtain r1 evs1 fs1 where rm: "remove_dupes dupes do_del fs = (r1, evs1, fs1)"
      by (cases "remove_dupes dupes do_del fs") auto
    have t1: "(\<forall>p. OsRemove p \<in> set evs1 \<longrightarrow> marked p) \<and>
              (\<forall>q. \<not> marked q \<longrightarrow> map_of fs1 q = map_of fs q)"
      using remove_dupes_touches [OF rm] mk by blast
    let ?pre = "Printed (''Checking: '' @ base_path) #
               (if length dupes = 0 then [Printed (tab # ''No duplicates found'')] else [])"
    show ?thesis
    proof (cases "r1 = None \<and> recursive \<and> (\<exists>names. os_listdir fs1 base_path = Inr names)")
      case False
      with Suc.prems Inr rm have "fs' = fs1" "set evs \<subseteq> set (?pre @ evs1)"
        by (auto simp: after_def Let_def split: option.splits sum.splits if_splits)
      with t1 show ?thesis by (auto split: if_splits)
    next
      case True
      then obtain names where ls: "os_listdir fs1 base_path = Inr names" by blast
      let ?dirs = "map (os_path_join base_path)
                     (filter (\<lambda>d. os_path_isdir fs1 (os_path_join base_path d)) names)"
      from True ls Suc.prems Inr rm obtain evs2 where
        rec: "for_dirs (\<lambda>cd. main depth sha1 cd recursive verify do_del) ?dirs fs1
                = Some (r, evs2, fs')"
        and evs: "evs = ?pre @ evs1 @ evs2"
        by (auto simp: Let_def after_def split: option.splits if_splits)
      have t2: "(\<forall>p. OsRemove p \<in> set evs2 \<longrightarrow> marked p) \<and>
                (\<forall>q. \<not> marked q \<longrightarrow> map_of fs' q = map_of fs1 q)"
        by (rule for_dirs_marked [OF _ rec]) (rule Suc.IH)
      from t1 t2 evs show ?thesis by (auto split: if_splits)
    qed
  qed
qed

section \<open>Whole runs\<close>

lemma for_dirs_dry:
  assumes "\<And>cd fs r evs fs'. call cd fs = Some (r, evs, fs') \<Longrightarrow>
            fs' = fs \<and> (\<forall>p. OsRemove p \<notin> set evs)"
    and "for_dirs call dirs fs = Some (r, evs, fs')"
  shows "fs' = fs \<and> (\<forall>p. OsRemove p \<notin> set evs)"
  using assms(2)
proof (induction dirs arbitrary: evs r)
  case Nil
  then show ?case by simp
next
  case (Cons cd dirs)
  from Cons.prems obtain r1 evs1 fs1 where one: "call cd fs = Some (r1, evs1, fs1)"
    by (cases "call cd fs") auto
  note t1 = assms(1) [OF one]
  show ?case
  proof (cases r1)
    case (Some e)
    with one Cons.prems have "evs = evs1" "fs' = fs1" by auto
    with t1 show ?thesis by simp
  next
    case None
    with one t1 Cons.prems obtain evs2 where
      rec: "for_dirs call dirs fs = Some (r, evs2, fs')" and evs: "evs = evs1 @ evs2"
      by (auto simp: after_eq_iff)
    from Cons.IH [OF rec] t1 evs show ?thesis by auto
  qed
qed

lemma main_dry:
  "main depth sha1 base_path recursive verify False fs = Some (r, evs, fs') \<Longrightarrow>
   fs' = fs \<and> (\<forall>p. OsRemove p \<notin> set evs)"
proof (induction depth arbitrary: base_path fs r evs fs')
  case 0
  then show ?case by simp
next
  case (Suc depth)
  let ?originals = "get_originals (get_all_files fs base_path default_filetypes) '' ''"
  show ?case
  proof (cases "get_dupes sha1 fs base_path ?originals '' '' verify")
    case (Inl e)
    with Suc.prems show ?thesis by (auto simp: after_def)
  next
    case (Inr dupes)
    obtain evs1 where rm: "remove_dupes dupes False fs = (None, evs1, fs)"
      and n1: "\<forall>p. OsRemove p \<notin> set evs1"
      using remove_dupes_dry by blast
    let ?pre = "Printed (''Checking: '' @ base_path) #
               (if length dupes = 0 then [Printed (tab # ''No duplicates found'')] else [])"
    show ?thesis
    proof (cases "recursive \<and> (\<exists>names. os_listdir fs base_path = Inr names)")
      case False
      with Suc.prems Inr rm have "fs' = fs" "set evs \<subseteq> set (?pre @ evs1)"
        by (auto simp: after_def Let_def split: option.splits sum.splits if_splits)
      with n1 show ?thesis by (auto split: if_splits)
    next
      case True
      then obtain names where ls: "os_listdir fs base_path = Inr names" by blast
      let ?dirs = "map (os_path_join base_path)
                     (filter (\<lambda>d. os_path_isdir fs (os_path_join base_path d)) names)"
      from True ls Suc.prems Inr rm obtain evs2 where
        rec: "for_dirs (\<lambda>cd. main depth sha1 cd recursive verify False) ?dirs fs
                = Some (r, evs2, fs')"
        and evs: "evs = ?pre @ evs1 @ evs2"
        by (auto simp: Let_def after_def split: option.splits if_splits)
      have t2: "fs' = fs \<and> (\<forall>p. OsRemove p \<notin> set evs2)"
        by (rule for_dirs_dry [OF _ rec]) (rule Suc.IH)
      from n1 t2 evs show ?thesis by (auto split: if_splits)
    qed
  qed
qed

lemma os_remove_keys:
  "os_remove fs p = Inr fs' \<Longrightarrow> set (map fst fs') \<subseteq> set (map fst fs)"
  by (auto simp: os_remove_def split: option.splits node.splits if_splits)

lemma remove_dupeset_keys:
  "remove_dupeset xs do_del fs = (r, evs, fs') \<Longrightarrow> set (map fst fs') \<subseteq> set (map fst fs)"
proof (induction xs arbitrary: fs evs fs' r)
  case Nil
  then show ?case by simp
next
  case (Cons x xs)
  show ?case
  proof (cases do_del)
    case False
    with Cons.prems show ?thesis by (auto simp: remove_dupeset_dry after_def)
  next
    case True
    show ?thesis
    proof (cases "os_remove fs x")
      case (Inr fs1)
      with True Cons.prems obtain evs1 where
        rec: "remove_dupeset xs do_del fs1 = (r, evs1, fs')"
        by (auto simp: after_eq_iff)
      from Cons.IH [OF rec] os_remove_keys [OF Inr] show ?thesis by blast
    next
      case (Inl e)
      show ?thesis
      proof (cases "e = FileNotFoundError")
        case False
        with Inl True Cons.prems show ?thesis by auto
      next
        case fnf: True
        with Inl True Cons.prems obtain evs1 where
          rec: "remove_dupeset xs do_del fs = (r, evs1, fs')"
          by (auto simp: after_eq_iff)
        from Cons.IH [OF rec] show ?thesis .
      qed
    qed
  qed
qed

lemma remove_dupes_keys:
  "remove_dupes dss do_del fs = (r, evs, fs') \<Longrightarrow> set (map fst fs') \<subseteq> set (map fst fs)"
proof (induction dss arbitrary: fs evs fs' r)
  case Nil
  then show ?case by simp
next
  case (Cons ds dss)
  obtain r1 evs1 fs1 where one: "remove_dupeset ds do_del fs = (r1, evs1, fs1)"
    by (cases "remove_dupeset ds do_del fs") auto
  note t1 = remove_dupeset_keys [OF one]
  show ?case
  proof (cases r1)
    case (Some e)
    with one Cons.prems have "fs' = fs1" by (auto simp: after_def)
    with t1 show ?thesis by simp
  next
    case None
    with one Cons.prems obtain evs2 where
      rec: "remove_dupes dss do_del fs1 = (r, evs2, fs')"
      by (auto simp: after_eq_iff)
    from Cons.IH [OF rec] t1 show ?thesis by blast
  qed
qed

lemma for_dirs_keys:
  assumes "\<And>cd fs r evs fs'. call cd fs = Some (r, evs, fs') \<Longrightarrow>
            set (map fst fs') \<subseteq> set (map fst fs)"
    and "for_dirs call dirs fs = Some (r, evs, fs')"
  shows "set (map fst fs') \<subseteq> set (map fst fs)"
  using assms(2)
proof (induction dirs arbitrary: fs evs r)
  case Nil
  then show ?case by simp
next
  case (Cons cd dirs)
  from Cons.prems obtain r1 evs1 fs1 where one: "call cd fs = Some (r1, evs1, fs1)"
    by (cases "call cd fs") auto
  note t1 = assms(1) [OF one]
  show ?case
  proof (cases r1)
    case (Some e)
    with one Cons.prems have "fs' = fs1" by auto
    with t1 show ?thesis by simp
  next
    case None
    with one Cons.prems obtain evs2 where
      rec: "for_dirs call dirs fs1 = Some (r, evs2, fs')"
      by (auto simp: after_eq_iff)
    from Cons.IH [OF rec] t1 show ?thesis by blast
  qed
qed

lemma main_keys:
  "main depth sha1 base_path recursive verify do_del fs = Some (r, evs, fs') \<Longrightarrow>
   set (map fst fs') \<subseteq> set (map fst fs)"
proof (induction depth arbitrary: base_path fs r evs fs')
  case 0
  then show ?case by simp
next
  case (Suc depth)
  let ?originals = "get_originals (get_all_files fs base_path default_filetypes) '' ''"
  show ?case
  proof (cases "get_dupes sha1 fs base_path ?originals '' '' verify")
    case (Inl e)
    with Suc.prems show ?thesis by (auto simp: after_def)
  next
    case (Inr dupes)
    obtain r1 evs1 fs1 where rm: "remove_dupes dupes do_del fs = (r1, evs1, fs1)"
      by (cases "remove_dupes dupes do_del fs") auto
    note t1 = remove_dupes_keys [OF rm]
    show ?thesis
    proof (cases "r1 = None \<and> recursive \<and> (\<exists>names. os_listdir fs1 base_path = Inr names)")
      case False
      with Suc.prems Inr rm have "fs' = fs1"
        by (auto simp: after_def Let_def split: option.splits sum.splits if_splits)
      with t1 show ?thesis by simp
    next
      case True
      then obtain names where ls: "os_listdir fs1 base_path = Inr names" by blast
      let ?dirs = "map (os_path_join base_path)
                     (filter (\<lambda>d. os_path_isdir fs1 (os_path_join base_path d)) names)"
      from True ls Suc.prems Inr rm obtain evs2 where
        rec: "for_dirs (\<lambda>cd. main depth sha1 cd recursive verify do_del) ?dirs fs1
                = Some (r, evs2, fs')"
        by (auto simp: Let_def after_def split: option.splits if_splits)
      have "set (map fst fs') \<subseteq> set (map fst fs1)"
        by (rule for_dirs_keys [OF _ rec]) (rule Suc.IH)
      with t1 show ?thesis by blast
    qed
  qed
qed

lemma children_names: "n \<in> set (children fs d) \<Longrightarrow> n \<noteq> [] \<and> sep \<notin> set n"
  by (auto simp: children_def Let_def)

lemma os_listdir_children: "os_listdir fs p = Inr names \<Longrightarrow> names = children fs p"
  by (auto simp: os_listdir_def split: option.splits node.splits if_splits)

lemma os_path_join_plain:
  "n \<noteq> [] \<Longrightarrow> sep \<notin> set n \<Longrightarrow>
   os_path_join base n = (if base = [] \<or> suffix [sep] base then base @ n else base @ sep # n)"
  by (cases n) (auto simp: os_path_join_def py_startswith_def py_endswith_def)

lemma os_path_join_longer:
  "n \<noteq> [] \<Longrightarrow> sep \<notin> set n \<Longrightarrow> length base < length (os_path_join base n)"
  by (simp add: os_path_join_plain)

lemma os_path_isdir_key: "os_path_isdir fs p \<Longrightarrow> p \<in> set (map fst fs)"
  by (auto simp: os_path_isdir_def split: option.splits dest: map_of_SomeD intro: rev_image_eqI)

lemma for_dirs_total:
  assumes "\<And>cd fs1. cd \<in> set dirs \<Longrightarrow> set (map fst fs1) \<subseteq> K \<Longrightarrow> call cd fs1 \<noteq> None"
    and "\<And>cd fs1 r evs fs2. call cd fs1 = Some (r, evs, fs2) \<Longrightarrow>
           set (map fst fs2) \<subseteq> set (map fst fs1)"
    and "set (map fst fs) \<subseteq> K"
  shows "for_dirs call dirs fs \<noteq> None"
  using assms(1,3)
proof (induction dirs arbitrary: fs)
  case Nil
  show ?case by simp
next
  case (Cons cd dirs)
  obtain r1 evs1 fs1 where one: "call cd fs = Some (r1, evs1, fs1)"
    using Cons.prems(1) [of cd fs] Cons.prems(2) by auto
  have k1: "set (map fst fs1) \<subseteq> K"
    using assms(2) [OF one] Cons.prems(2) by blast
  have "for_dirs call dirs fs1 \<noteq> None"
    by (rule Cons.IH) (use Cons.prems(1) k1 in auto)
  with one show ?case by (cases r1) auto
qed

lemma main_enough_depth:
  "0 < depth \<Longrightarrow> \<forall>p \<in> set (map fst fs). length p < length base_path + depth \<Longrightarrow>
   main depth sha1 base_path recursive verify do_del fs \<noteq> None"
proof (induction depth arbitrary: base_path fs)
  case 0
  then show ?case by simp
next
  case (Suc depth)
  let ?originals = "get_originals (get_all_files fs base_path default_filetypes) '' ''"
  show ?case
  proof (cases "get_dupes sha1 fs base_path ?originals '' '' verify")
    case (Inl e)
    then show ?thesis by simp
  next
    case (Inr dupes)
    obtain r1 evs1 fs1 where rm: "remove_dupes dupes do_del fs = (r1, evs1, fs1)"
      by (cases "remove_dupes dupes do_del fs") auto
    note k1 = remove_dupes_keys [OF rm]
    show ?thesis
    proof (cases "r1 = None \<and> recursive \<and> (\<exists>names. os_listdir fs1 base_path = Inr names)")
      case False
      with Inr rm show ?thesis
        by (auto simp: Let_def split: option.splits sum.splits)
    next
      case True
      then obtain names where ls: "os_listdir fs1 base_path = Inr names" by blast
      let ?dirs = "map (os_path_join base_path)
                     (filter (\<lambda>d. os_path_isdir fs1 (os_path_join base_path d)) names)"
      have "for_dirs (\<lambda>cd. main depth sha1 cd recursive verify do_del) ?dirs fs1 \<noteq> None"
      proof (rule for_dirs_total [where K = "set (map fst fs1)"])
        fix cd and fs2 :: filesystem
        assume cd: "cd \<in> set ?dirs" and sub: "set (map fst fs2) \<subseteq> set (map fst fs1)"
        then obtain n where n: "n \<in> set names" "cd = os_path_join base_path n"
          "os_path_isdir fs1 cd" by auto
        have nn: "n \<noteq> [] \<and> sep \<notin> set n"
          using n(1) os_listdir_children [OF ls] children_names by blast
        then have longer: "length base_path < length cd"
          using n(2) os_path_join_longer by simp
        have "cd \<in> set (map fst fs)"
          using os_path_isdir_key [OF n(3)] k1 by blast
        then have "length cd < length base_path + Suc depth"
          using Suc.prems(2) by blast
        with longer have d: "0 < depth" by simp
        have "\<forall>p \<in> set (map fst fs2). length p < length cd + depth"
          using sub k1 Suc.prems(2) longer by fastforce
        with d show "main depth sha1 cd recursive verify do_del fs2 \<noteq> None"
          by (rule Suc.IH)
      next
        fix cd fs2 r evs fs3
        assume "main depth sha1 cd recursive verify do_del fs2 = Some (r, evs, fs3)"
        then show "set (map fst fs3) \<subseteq> set (map fst fs2)" by (rule main_keys)
      qed simp
      with True ls Inr rm show ?thesis
        by (auto simp: Let_def)
    qed
  qed
qed

lemma main_returns:
  "\<exists>depth. main depth sha1 base_path recursive verify do_del fs \<noteq> None"
proof -
  let ?d = "Suc (sum_list (map (length \<circ> fst) fs))"
  have "\<forall>p \<in> set (map fst fs). length p < length base_path + ?d"
  proof
    fix p assume "p \<in> set (map fst fs)"
    then have "length p \<in> set (map (length \<circ> fst) fs)" by auto
    then have "length p \<le> sum_list (map (length \<circ> fst) fs)"
      by (simp add: member_le_sum_list)
    then show "length p < length base_path + ?d" by simp
  qed
  then have "main ?d sha1 base_path recursive verify do_del fs \<noteq> None"
    by (intro main_enough_depth) simp_all
  then show ?thesis by blast
qed

lemma for_dirs_mono:
  assumes "\<And>cd fs res. call cd fs = Some res \<Longrightarrow> call' cd fs = Some res"
    and "for_dirs call dirs fs = Some res"
  shows "for_dirs call' dirs fs = Some res"
  using assms(2)
proof (induction dirs arbitrary: fs res)
  case Nil
  then show ?case by simp
next
  case (Cons cd dirs)
  from Cons.prems obtain r1 evs1 fs1 where one: "call cd fs = Some (r1, evs1, fs1)"
    by (cases "call cd fs") auto
  have one': "call' cd fs = Some (r1, evs1, fs1)"
    using one by (rule assms(1))
  show ?case
  proof (cases r1)
    case (Some e)
    with one one' Cons.prems show ?thesis by auto
  next
    case None
    with one Cons.prems obtain res2 where
      rec: "for_dirs call dirs fs1 = Some res2" and res: "res = after evs1 res2"
      by auto
    from Cons.IH [OF rec] one' None res show ?thesis by simp
  qed
qed

lemma main_Suc:
  "main depth sha1 base_path recursive verify do_del fs = Some res \<Longrightarrow>
   main (Suc depth) sha1 base_path recursive verify do_del fs = Some res"
proof (induction depth arbitrary: base_path fs res)
  case 0
  then show ?case by simp
next
  case (Suc depth)
  let ?originals = "get_originals (get_all_files fs base_path default_filetypes) '' ''"
  show ?case
  proof (cases "get_dupes sha1 fs base_path ?originals '' '' verify")
    case (Inl e)
    with Suc.prems show ?thesis by (subst main.simps(2)) simp
  next
    case (Inr dupes)
    obtain r1 evs1 fs1 where rm: "remove_dupes dupes do_del fs = (r1, evs1, fs1)"
      by (cases "remove_dupes dupes do_del fs") auto
    show ?thesis
    proof (cases "r1 = None \<and> recursive \<and> (\<exists>names. os_listdir fs1 base_path = Inr names)")
      case False
      with Suc.prems Inr rm show ?thesis
        by (subst main.simps(2)) (auto simp: Let_def split: option.splits sum.splits)
    next
      case True
      then obtain names where ls: "os_listdir fs1 base_path = Inr names" by blast
      let ?dirs = "map (os_path_join base_path)
                     (filter (\<lambda>d. os_path_isdir fs1 (os_path_join base_path d)) names)"
      let ?wrap = "\<lambda>x. map_option (after [Printed (''Checking: '' @ base_path)])
           (map_option (after (if length dupes = 0
               then [Printed (tab # ''No duplicates found'')] else []))
             (map_option (after evs1) x))"
      have shape: "main (Suc d) sha1 base_path recursive verify do_del fs =
          ?wrap (for_dirs (\<lambda>cd. main d sha1 cd recursive verify do_del) ?dirs fs1)" for d
        using True ls Inr rm by (simp add: Let_def)
      from Suc.prems obtain res2 where
        r2: "for_dirs (\<lambda>cd. main depth sha1 cd recursive verify do_del) ?dirs fs1 = Some res2"
        unfolding shape by (cases "for_dirs (\<lambda>cd. main depth sha1 cd recursive verify do_del) ?dirs fs1") auto
      have "for_dirs (\<lambda>cd. main (Suc depth) sha1 cd recursive verify do_del) ?dirs fs1 = Some res2"
        by (rule for_dirs_mono
              [where call = "\<lambda>cd. main depth sha1 cd recursive verify do_del", OF _ r2])
           (rule Suc.IH)
      with r2 Suc.prems show ?thesis
        unfolding shape by simp
    qed
  qed
qed

lemma main_more_depth:
  "main depth sha1 base_path recursive verify do_del fs = Some res \<Longrightarrow>
   main (depth + k) sha1 base_path recursive verify do_del fs = Some res"
  by (induction k) (auto dest: main_Suc simp del: main.simps)

section \<open>Errors of a removal\<close>

lemma remove_dupes_at_file:
  assumes "remove_dupes (A @ [xs]) True fs = (None, evs, fs1)"
  shows "(os_remove fs1 p = Inl FileNotFoundError \<longrightarrow>
            remove_dupes (A @ (xs @ p # ys) # B) True fs =
              after (evs @ [Printed (dupe_line p), OsRemove p, Printed (missing_line p)])
                (case remove_dupeset ys True fs1 of
                   (Some e, evs', fs') \<Rightarrow> (Some e, evs', fs')
                 | (None, evs', fs') \<Rightarrow> after evs' (remove_dupes B True fs')))
       \<and> (\<forall>e. os_remove fs1 p = Inl e \<and> e \<noteq> FileNotFoundError \<longrightarrow>
            remove_dupes (A @ (xs @ p # ys) # B) True fs =
              (Some e, evs @ [Printed (dupe_line p), OsRemove p], fs1))"
proof -
  obtain evA fsA where a: "remove_dupes A True fs = (None, evA, fsA)"
    using assms
    by (cases "remove_dupes A True fs")
       (auto simp: remove_dupes_last_set split: option.splits)
  obtain evX where x: "remove_dupeset xs True fsA = (None, evX, fs1)"
    and evs: "evs = evA @ Printed removing_header # evX"
    using assms a by (auto simp: remove_dupes_last_set after_eq_iff)
  have whole: "remove_dupes (A @ (xs @ p # ys) # B) True fs =
      after (evA @ [Printed removing_header])
        (case after evX (remove_dupeset (p # ys) True fs1) of
           (Some e, evs', fs') \<Rightarrow> (Some e, evs', fs')
         | (None, evs', fs') \<Rightarrow> after evs' (remove_dupes B True fs'))"
    by (simp add: remove_dupes_append a remove_dupeset_append x after_after)
  show ?thesis
  proof (intro conjI impI allI)
    assume "os_remove fs1 p = Inl FileNotFoundError"
    then show "remove_dupes (A @ (xs @ p # ys) # B) True fs =
              after (evs @ [Printed (dupe_line p), OsRemove p, Printed (missing_line p)])
                (case remove_dupeset ys True fs1 of
                   (Some e, evs', fs') \<Rightarrow> (Some e, evs', fs')
                 | (None, evs', fs') \<Rightarrow> after evs' (remove_dupes B True fs'))"
      unfolding whole evs
      by (cases "remove_dupeset ys True fs1")
         (auto simp: after_def split: option.splits prod.splits)
  next
    fix e
    assume "os_remove fs1 p = Inl e \<and> e \<noteq> FileNotFoundError"
    then show "remove_dupes (A @ (xs @ p # ys) # B) True fs =
              (Some e, evs @ [Printed (dupe_line p), OsRemove p], fs1)"
      unfolding whole evs by (simp add: after_def)
  qed
qed

lemma main_remove_error:
  assumes "get_dupes sha1 fs base_path
             (get_originals (get_all_files fs base_path default_filetypes) '' '') '' '' verify
           = Inr dupes"
    and "remove_dupes dupes do_del fs = (Some e, evs, fs')"
  shows "main (Suc depth) sha1 base_path recursive verify do_del fs =
         Some (Some e, Printed (''Checking: '' @ base_path) # evs, fs')"
proof -
  have "dupes \<noteq> []" using assms(2) by auto
  then show ?thesis using assms by (simp add: Let_def after_def)
qed

text \<open>
  Claim C3.  In \<^verbatim>\<open>remove_dupes\<close> with the commit flag true, take any file \<open>p\<close> of any
  duplicate set, reached without a fatal error (the sets \<open>A\<close> and the files \<open>xs\<close> of its
  own set come before it, the files \<open>ys\<close> and the sets \<open>B\<close> after it).  If its removal
  fails because the file does not exist, the warning line is printed and the run goes
  on with \<open>ys\<close> and \<open>B\<close> on the unchanged store.  If it fails with any other error, the
  run of \<^verbatim>\<open>remove_dupes\<close> ends there with that error, nothing after \<open>p\<close> is touched,
  and \<^verbatim>\<open>main\<close> ends with the same error.
\<close>

theorem remover_missing_tolerated_other_fatal:
  "(remove_dupes (A @ [xs]) True fs = (None, evs, fs_at) \<and>
    os_remove fs_at p = Inl FileNotFoundError \<longrightarrow>
      remove_dupes (A @ (xs @ p # ys) # B) True fs =
        after (evs @ [Printed (dupe_line p), OsRemove p, Printed (missing_line p)])
          (case remove_dupeset ys True fs_at of
             (Some e, evs', fs') \<Rightarrow> (Some e, evs', fs')
           | (None, evs', fs') \<Rightarrow> after evs' (remove_dupes B True fs')))
   \<and> (remove_dupes (A @ [xs]) True fs = (None, evs, fs_at) \<and>
      os_remove fs_at p = Inl err \<and> err \<noteq> FileNotFoundError \<longrightarrow>
        remove_dupes (A @ (xs @ p # ys) # B) True fs =
          (Some err, evs @ [Printed (dupe_line p), OsRemove p], fs_at))
   \<and> (get_dupes sha1 fs base_path
        (get_originals (get_all_files fs base_path default_filetypes) '' '') '' '' verify
        = Inr dupes \<and>
      remove_dupes dupes True fs = (Some err, evs_err, fs_err) \<longrightarrow>
        main (Suc depth) sha1 base_path recursive verify True fs =
          Some (Some err, Printed (''Checking: '' @ base_path) # evs_err, fs_err))"
  using remove_dupes_at_file [of A xs fs evs fs_at p ys B] main_remove_error
  by blast

theorem remover_missing_tolerated_other_fatal_witness:
  "remove_dupes [[''d/cat (1).jpg'', ''d/cat (2).jpg'']] True gone_dir =
     (None,
      [Printed removing_header,
       Printed (dupe_line ''d/cat (1).jpg''), OsRemove ''d/cat (1).jpg'',
       Printed (missing_line ''d/cat (1).jpg''),
       Printed (dupe_line ''d/cat (2).jpg''), OsRemove ''d/cat (2).jpg''],
      [(''d'', Dir True), (''d/sub (1).jpg'', Dir True)])
   \<and> remove_dupes [[''d/sub (1).jpg'', ''d/cat (2).jpg'']] True gone_dir =
     (Some IsADirectoryError,
      [Printed removing_header,
       Printed (dupe_line ''d/sub (1).jpg''), OsRemove ''d/sub (1).jpg''],
      gone_dir)"
proof -
  have pre: "remove_dupes ([] @ [[]]) True gone_dir = (None, [Printed removing_header], gone_dir)"
    by (simp add: after_def)
  have gone: "os_remove gone_dir ''d/cat (1).jpg'' = Inl FileNotFoundError"
    by (simp add: os_remove_def gone_dir_def)
  have isdir: "os_remove gone_dir ''d/sub (1).jpg'' = Inl IsADirectoryError"
    by (simp add: os_remove_def gone_dir_def)
  have rest: "remove_dupeset [''d/cat (2).jpg''] True gone_dir =
      (None, [Printed (dupe_line ''d/cat (2).jpg''), OsRemove ''d/cat (2).jpg''],
       [(''d'', Dir True), (''d/sub (1).jpg'', Dir True)])"
    by (simp add: os_remove_def gone_dir_def after_def)
  have 1: "remove_dupes ([] @ ([] @ ''d/cat (1).jpg'' # [''d/cat (2).jpg'']) # []) True gone_dir =
      after ([Printed removing_header] @
             [Printed (dupe_line ''d/cat (1).jpg''), OsRemove ''d/cat (1).jpg'',
              Printed (missing_line ''d/cat (1).jpg'')])
        (case remove_dupeset [''d/cat (2).jpg''] True gone_dir of
           (Some e, evs', fs') \<Rightarrow> (Some e, evs', fs')
         | (None, evs', fs') \<Rightarrow> after evs' (remove_dupes [] True fs'))"
    using remover_missing_tolerated_other_fatal
            [where A = "[]" and xs = "[]" and fs = gone_dir and fs_at = gone_dir
               and evs = "[Printed removing_header]" and p = "''d/cat (1).jpg''"
               and ys = "[''d/cat (2).jpg'']" and B = "[]"]
          pre gone
    by blast
  have 2: "remove_dupes ([] @ ([] @ ''d/sub (1).jpg'' # [''d/cat (2).jpg'']) # []) True gone_dir =
      (Some IsADirectoryError,
       [Printed removing_header] @ [Printed (dupe_line ''d/sub (1).jpg''), OsRemove ''d/sub (1).jpg''],
       gone_dir)"
    using remover_missing_tolerated_other_fatal
            [where A = "[]" and xs = "[]" and fs = gone_dir and fs_at = gone_dir
               and evs = "[Printed removing_header]" and p = "''d/sub (1).jpg''"
               and ys = "[''d/cat (2).jpg'']" and B = "[]" and err = IsADirectoryError]
          pre isdir
    by blast
  show ?thesis
    using 1 2 unfolding rest
    by (simp add: after_def del: remove_dupes.simps(2) remove_dupeset.simps(2))
qed

section \<open>Dry runs\<close>

lemma main_depth_irrelevant:
  assumes "main d1 sha1 base_path recursive verify do_del fs = Some res1"
    and "main d2 sha1 base_path recursive verify do_del fs = Some res2"
  shows "res1 = res2"
proof -
  have "main (d1 + d2) sha1 base_path recursive verify do_del fs = Some res1"
    using assms(1) by (rule main_more_depth)
  moreover have "main (d2 + d1) sha1 base_path recursive verify do_del fs = Some res2"
    using assms(2) by (rule main_more_depth)
  ultimately show ?thesis by (simp add: add.commute)
qed

text \<open>
  Claim C5.  With the commit flag false, a run of \<^verbatim>\<open>main\<close> over a directory tree
  returns (at some depth of calls) and leaves the store as it was; it never calls
  \<^verbatim>\<open>os.remove\<close>.  Of two dry runs one after the other, the second starts on the store
  the first left, which is the same store, and ends with the same outcome and the same
  events, whatever depth each was given.
\<close>

theorem dry_run_changes_nothing:
  "(\<exists>depth r evs. main depth sha1 base_path recursive verify False fs = Some (r, evs, fs))
   \<and> (\<forall>d1 d2 r1 evs1 fs1 r2 evs2 fs2.
         main d1 sha1 base_path recursive verify False fs = Some (r1, evs1, fs1) \<and>
         main d2 sha1 base_path recursive verify False fs1 = Some (r2, evs2, fs2)
         \<longrightarrow> fs1 = fs \<and> fs2 = fs \<and> (\<forall>p. OsRemove p \<notin> set evs1) \<and> r2 = r1 \<and> evs2 = evs1)"
proof -
  obtain depth r evs fs' where
    m: "main depth sha1 base_path recursive verify False fs = Some (r, evs, fs')"
    using main_returns [of sha1 base_path recursive verify False fs] by auto
  then have "fs' = fs" using main_dry by blast
  with m have returns:
    "\<exists>depth r evs. main depth sha1 base_path recursive verify False fs = Some (r, evs, fs)"
    by blast
  have twice: "fs1 = fs \<and> fs2 = fs \<and> (\<forall>p. OsRemove p \<notin> set evs1) \<and> r2 = r1 \<and> evs2 = evs1"
    if a1: "main d1 sha1 base_path recursive verify False fs = Some (r1, evs1, fs1)"
      and a2: "main d2 sha1 base_path recursive verify False fs1 = Some (r2, evs2, fs2)"
    for d1 d2 r1 evs1 fs1 r2 evs2 fs2
  proof -
    have 1: "fs1 = fs \<and> (\<forall>p. OsRemove p \<notin> set evs1)" using a1 by (rule main_dry)
    with a2 have 2: "main d2 sha1 base_path recursive verify False fs = Some (r2, evs2, fs2)"
      by simp
    have "(r1, evs1, fs1) = (r2, evs2, fs2)"
      using a1 2 by (rule main_depth_irrelevant)
    with 1 show ?thesis by simp
  qed
  from returns twice show ?thesis by blast
qed

theorem dry_run_changes_nothing_witness:
  "main 2 (\<lambda>b. b) ''d'' True True False cat_dir =
     Some (None,
       [Printed ''Checking: d'', Printed removing_header, Printed (dupe_line ''d/cat (1).jpg'')],
       cat_dir)
   \<and> (\<forall>p. OsRemove p \<notin>
          set [Printed ''Checking: d'', Printed removing_header,
               Printed (dupe_line ''d/cat (1).jpg'')])"
proof -
  have e: "main 2 (\<lambda>b. b) ''d'' True True False cat_dir =
     Some (None,
       [Printed ''Checking: d'', Printed removing_header, Printed (dupe_line ''d/cat (1).jpg'')],
       cat_dir)"
    by code_simp
  have "\<forall>p. OsRemove p \<notin>
          set [Printed ''Checking: d'', Printed removing_header,
               Printed (dupe_line ''d/cat (1).jpg'')]"
    using dry_run_changes_nothing [of "\<lambda>b. b" "''d''" True True cat_dir] e by blast
  with e show ?thesis by blast
qed

section \<open>Originals are kept\<close>

lemma marked_not_original: "marked p \<Longrightarrow> p \<notin> set (get_originals all_images '' '')"
  by (simp add: marked_def get_originals_def)

text \<open>
  Claim C9.  A member of a duplicate set returned by \<^verbatim>\<open>get_dupes\<close> is never one of
  the originals taken with the same marker.  In a run of \<^verbatim>\<open>main\<close>, with or without the
  commit flag, \<^verbatim>\<open>os.remove\<close> is never called on a path that the classifier takes for
  an original, and every such path is in the store afterwards exactly as before.
\<close>

theorem originals_never_removed:
  "(get_dupes sha1 fs base_path (get_originals all_images indicator) indicator verify = Inr dupes
      \<longrightarrow> (\<forall>ds \<in> set dupes. \<forall>d \<in> set ds. d \<notin> set (get_originals all_images indicator)))
   \<and> (main depth sha1 base_path recursive verify do_del fs = Some (r, evs, fs')
      \<longrightarrow> (\<forall>p. OsRemove p \<in> set evs \<longrightarrow> p \<notin> set (get_originals all_images '' ''))
        \<and> (\<forall>p \<in> set (get_originals all_images '' ''). map_of fs' p = map_of fs p))"
proof (rule conjI; rule impI)
  assume "get_dupes sha1 fs base_path (get_originals all_images indicator) indicator verify
            = Inr dupes"
  then show "\<forall>ds \<in> set dupes. \<forall>d \<in> set ds. d \<notin> set (get_originals all_images indicator)"
    using get_dupes_marker by (fastforce simp: get_originals_def)
next
  assume m: "main depth sha1 base_path recursive verify do_del fs = Some (r, evs, fs')"
  note inv = main_marked [OF m]
  show "(\<forall>p. OsRemove p \<in> set evs \<longrightarrow> p \<notin> set (get_originals all_images '' ''))
        \<and> (\<forall>p \<in> set (get_originals all_images '' ''). map_of fs' p = map_of fs p)"
    using inv marked_not_original by blast
qed

theorem originals_never_removed_witness:
  "main 2 (\<lambda>b. b) ''d'' True False True cat_dir =
     Some (None,
       [Printed ''Checking: d'', Printed removing_header,
        Printed (dupe_line ''d/cat (1).jpg''), OsRemove ''d/cat (1).jpg'',
        Printed (dupe_line ''d/cat (2).jpg''), OsRemove ''d/cat (2).jpg''],
       [(''d'', Dir True),
        (''d/cat.jpg'', File ''meow'' True True),
        (''d/dog.png'', File ''woof'' True True)])
   \<and> map_of [(''d'', Dir True),
              (''d/cat.jpg'', File ''meow'' True True),
              (''d/dog.png'', File ''woof'' True True)] ''d/cat.jpg''
       = map_of cat_dir ''d/cat.jpg''"
proof -
  have e: "main 2 (\<lambda>b. b) ''d'' True False True cat_dir =
     Some (None,
       [Printed ''Checking: d'', Printed removing_header,
        Printed (dupe_line ''d/cat (1).jpg''), OsRemove ''d/cat (1).jpg'',
        Printed (dupe_line ''d/cat (2).jpg''), OsRemove ''d/cat (2).jpg''],
       [(''d'', Dir True),
        (''d/cat.jpg'', File ''meow'' True True),
        (''d/dog.png'', File ''woof'' True True)])"
    by code_simp
  have o: "''d/cat.jpg'' \<in> set (get_originals [''d/cat.jpg''] '' '')"
    by code_simp
  have "map_of [(''d'', Dir True),
              (''d/cat.jpg'', File ''meow'' True True),
              (''d/dog.png'', File ''woof'' True True)] ''d/cat.jpg''
       = map_of cat_dir ''d/cat.jpg''"
    using originals_never_removed [where all_images = "[''d/cat.jpg'']"] e o by blast
  with e show ?thesis by blast
qed

section \<open>A copy in two sets\<close>

text \<open>
  Claim C10.  In the directory \<open>photo_dir\<close> the originals are \<^verbatim>\<open>photo.jpg\<close> and
  \<^verbatim>\<open>photo2.jpg\<close>, and the one marked file \<^verbatim>\<open>photo2 (1).jpg\<close> is in the duplicate
  set of both.  A run with the commit flag prints it under both headers; the first
  \<^verbatim>\<open>os.remove\<close> deletes it, the second finds it missing, the warning is printed and
  the run ends without an error.
\<close>

theorem same_copy_in_two_sets:
  "get_originals (get_all_files photo_dir ''d'' default_filetypes) '' ''
     = [''d/photo.jpg'', ''d/photo2.jpg'']
   \<and> get_dupes (\<lambda>b. b) photo_dir ''d'' [''d/photo.jpg'', ''d/photo2.jpg''] '' '' False
     = Inr [[''d/photo2 (1).jpg''], [''d/photo2 (1).jpg'']]
   \<and> main 1 (\<lambda>b. b) ''d'' False False True photo_dir =
     Some (None,
       [Printed ''Checking: d'',
        Printed removing_header,
        Printed (dupe_line ''d/photo2 (1).jpg''), OsRemove ''d/photo2 (1).jpg'',
        Printed removing_header,
        Printed (dupe_line ''d/photo2 (1).jpg''), OsRemove ''d/photo2 (1).jpg'',
        Printed (missing_line ''d/photo2 (1).jpg'')],
       [(''d'', Dir True),
        (''d/photo.jpg'', File ''one'' True True),
        (''d/photo2.jpg'', File ''two'' True True)])"
  by code_simp

section \<open>File discovery\<close>

lemma py_rfind_absent: "c \<notin> set s \<Longrightarrow> py_rfind c s = - 1"
  by (induction s) (auto simp: Let_def)

lemma py_rfind_nonneg: "c \<in> set s \<Longrightarrow> 0 \<le> py_rfind c s"
  by (induction s) (auto simp: Let_def)

lemma py_rfind_last: "c \<notin> set ys \<Longrightarrow> py_rfind c (xs @ c # ys) = int (length xs)"
  by (induction xs) (auto simp: Let_def py_rfind_absent)

lemma py_rstrip_keep: "s \<noteq> [] \<Longrightarrow> last s \<noteq> c \<Longrightarrow> py_rstrip c (s @ [c]) = s"
  by (cases s rule: rev_cases) (auto simp: py_rstrip_def)

lemma os_path_split_join:
  assumes "base \<noteq> []" "last base \<noteq> sep" "sep \<notin> set pat" "pat \<noteq> []"
  shows "os_path_join base pat = base @ sep # pat"
    and "os_path_split (os_path_join base pat) = (base, pat)"
proof -
  have ns: "\<not> suffix [sep] base"
    using assms(1,2) by (cases base rule: rev_cases) auto
  show j: "os_path_join base pat = base @ sep # pat"
    using assms ns by (simp add: os_path_join_plain)
  have nr: "base @ [sep] \<noteq> replicate (Suc (length base)) sep"
  proof
    assume "base @ [sep] = replicate (Suc (length base)) sep"
    then have "set (base @ [sep]) \<subseteq> {sep}" by (metis set_replicate_conv_if subset_refl empty_subsetI)
    with assms(1,2) show False by (cases base rule: rev_cases) auto
  qed
  show "os_path_split (os_path_join base pat) = (base, pat)"
    unfolding j using assms nr
    by (simp add: os_path_split_def Let_def py_rfind_last nat_add_distrib py_rstrip_keep)
qed

lemma has_magic_append: "has_magic (a @ b) \<longleftrightarrow> has_magic a \<or> has_magic b"
  by (auto simp: has_magic_def)

lemma has_magic_Cons:
  "has_magic (c # s) \<longleftrightarrow> c = CHR ''*'' \<or> c = CHR ''?'' \<or> c = CHR ''['' \<or> has_magic s"
  by (auto simp: has_magic_def)

lemma glob_glob_plain_dir:
  assumes "\<not> has_magic base" "base \<noteq> []" "last base \<noteq> sep" "sep \<notin> set pat" "has_magic pat"
  shows "glob_glob fs (os_path_join base pat) = map (os_path_join base) (glob1 fs base pat False)"
proof -
  have ne: "pat \<noteq> []" using assms(5) by (auto simp: has_magic_def)
  note sj = os_path_split_join [OF assms(2,3,4) ne]
  have hm: "has_magic (os_path_join base pat)"
    using assms(5) by (simp add: sj(1) has_magic_append has_magic_Cons)
  show ?thesis
    unfolding glob_glob_def
    by (subst iglob.simps) (simp add: sj(2) hm assms)
qed

lemma glob1_listed:
  assumes "os_listdir fs base = Inr names" "base \<noteq> []"
  shows "glob1 fs base pat False =
         filter (\<lambda>n. match_pat pat n)
           (if ishidden pat then names else filter (\<lambda>n. \<not> ishidden n) names)"
  using assms by (simp add: glob1_def glob_listdir_def fnmatch_filter_def fnmatchcase_def Let_def)



lemma match_pat_star_any: "match_pat ''*'' n"
  by (induction n) auto

lemma match_pat_prefix_star:
  "\<not> has_magic lit \<Longrightarrow> match_pat (lit @ ''*'') n \<longleftrightarrow> prefix lit n"
proof (induction lit arbitrary: n)
  case Nil
  show ?case using match_pat_star_any by simp
next
  case (Cons c lit)
  then show ?case by (cases n) (auto simp: has_magic_Cons)
qed

lemma ishidden_prefix: "ishidden n \<longleftrightarrow> prefix ''.'' n"
  by (cases n) (auto simp: ishidden_def)


lemma py_rstrip_snoc_sep: "py_rstrip c (s @ [c]) = py_rstrip c s"
  by (simp add: py_rstrip_def)














section \<open>Names with pattern characters\<close>

text \<open>
  For an original whose base name holds none of the pattern characters, the glob of
  \<^verbatim>\<open>get_dupes\<close> is the test for the base name at the start of a listed name.
\<close>

lemma hd_py_split: "hd (py_split c s) = takeWhile (\<lambda>x. x \<noteq> c) s"
proof (induction s)
  case Nil
  show ?case by simp
next
  case (Cons x xs)
  then show ?case
    using py_split_nonempty [of c xs] by (cases "py_split c xs") auto
qed

lemma pic_name_of_chars:
  "sep \<notin> set (pic_name_of pic_path) \<and> CHR ''.'' \<notin> set (pic_name_of pic_path)"
proof -
  let ?seg = "last (py_split sep pic_path)"
  have 1: "sep \<notin> set ?seg"
    unfolding last_py_split by (auto dest: set_takeWhileD)
  have 2: "set (pic_name_of pic_path) \<subseteq> set ?seg"
    unfolding pic_name_of_def hd_py_split by (auto dest: set_takeWhileD)
  have 3: "CHR ''.'' \<notin> set (pic_name_of pic_path)"
    unfolding pic_name_of_def hd_py_split by (auto dest: set_takeWhileD)
  from 1 2 3 show ?thesis by blast
qed

lemma name_dupes_plain_name:
  assumes "\<not> has_magic base_path" "base_path \<noteq> []" "last base_path \<noteq> sep"
    and "os_listdir fs base_path = Inr names"
    and "\<not> has_magic (pic_name_of pic_path)"
  shows "name_dupes fs base_path pic_path indicator =
         map (os_path_join base_path)
           (filter (\<lambda>n. prefix (pic_name_of pic_path) n \<and> \<not> prefix ''.'' n \<and>
                        py_in indicator n \<and>
                        py_endswith (os_path_join base_path n) (filetype_of pic_path))
              names)"
proof -
  let ?pic = "pic_name_of pic_path"
  let ?pat = "?pic @ ''*''"
  have ns: "sep \<notin> set ?pat" using pic_name_of_chars [of pic_path] by (simp add: sep_def)
  have hm: "has_magic ?pat" by (simp add: has_magic_append has_magic_Cons)
  have nh: "\<not> ishidden ?pat"
    using pic_name_of_chars [of pic_path] by (cases ?pic) (auto simp: ishidden_def)
  have g: "glob_glob fs (os_path_join base_path ?pat) =
           map (os_path_join base_path) (glob1 fs base_path ?pat False)"
    by (rule glob_glob_plain_dir [OF assms(1,2,3) ns hm])
  have l: "glob1 fs base_path ?pat False =
           filter (\<lambda>n. match_pat ?pat n) (filter (\<lambda>n. \<not> ishidden n) names)"
    using glob1_listed [OF assms(4,2), of ?pat] nh by (simp only: if_False)
  have f: "filter (\<lambda>n. match_pat ?pat n) (filter (\<lambda>n. \<not> ishidden n) names) =
           filter (\<lambda>n. prefix ?pic n \<and> \<not> prefix ''.'' n) names"
    unfolding filter_filter
    by (rule filter_cong [OF refl])
       (auto simp only: match_pat_prefix_star [OF assms(5)] ishidden_prefix)
  have seg: "last (py_split sep (os_path_join base_path n)) = n" if "n \<in> set names" for n
  proof -
    have nn: "n \<noteq> [] \<and> sep \<notin> set n"
      using that os_listdir_children [OF assms(4)] children_names by blast
    have "\<not> suffix [sep] base_path"
      using assms(2,3) by (cases base_path rule: rev_cases) auto
    then have "os_path_join base_path n = base_path @ sep # n"
      using nn assms(2) by (simp add: os_path_join_plain)
    then show ?thesis using nn by (simp add: last_py_split_dir)
  qed
  have "name_dupes fs base_path pic_path indicator =
        filter (\<lambda>p. py_in indicator (last (py_split sep p)) \<and> py_endswith p (filetype_of pic_path))
          (map (os_path_join base_path) (filter (\<lambda>n. prefix ?pic n \<and> \<not> prefix ''.'' n) names))"
    by (simp only: name_dupes_def g l f)
  also have "\<dots> = map (os_path_join base_path)
      (filter (\<lambda>n. py_in indicator (last (py_split sep (os_path_join base_path n))) \<and>
                   py_endswith (os_path_join base_path n) (filetype_of pic_path))
         (filter (\<lambda>n. prefix ?pic n \<and> \<not> prefix ''.'' n) names))"
    by (simp add: filter_map comp_def)
  also have "\<dots> = map (os_path_join base_path)
      (filter (\<lambda>n. prefix ?pic n \<and> \<not> prefix ''.'' n \<and> py_in indicator n \<and>
                   py_endswith (os_path_join base_path n) (filetype_of pic_path)) names)"
    unfolding filter_filter
    by (rule arg_cong [where f = "map (os_path_join base_path)"], rule filter_cong [OF refl])
       (auto simp: seg)
  finally show ?thesis .
qed

text \<open>
  Claim C1 on the directory \<open>bracket_dir\<close>.  The original \<^verbatim>\<open>a[1].jpg\<close> has the base
  name \<^verbatim>\<open>a[1]\<close> and the extension \<^verbatim>\<open>jpg\<close>.  The file \<^verbatim>\<open>a[1] (1).jpg\<close> begins with
  that base name, holds the marker and ends with the extension, and is not in the
  duplicate set; \<^verbatim>\<open>a1 b.jpg\<close>, which does not begin with the base name, is: the base
  name is read as a pattern.
\<close>

theorem bracket_name_read_as_pattern:
  "get_originals (get_all_files bracket_dir ''d'' default_filetypes) '' '' = [''d/a[1].jpg'']
   \<and> pic_name_of ''d/a[1].jpg'' = ''a[1]''
   \<and> filetype_of ''d/a[1].jpg'' = ''jpg''
   \<and> get_dupes (\<lambda>b. b) bracket_dir ''d'' [''d/a[1].jpg''] '' '' False = Inr [[''d/a1 b.jpg'']]
   \<and> prefix ''a[1]'' ''a[1] (1).jpg'' \<and> py_in '' '' ''a[1] (1).jpg''
   \<and> py_endswith ''a[1] (1).jpg'' ''jpg''
   \<and> \<not> prefix ''a[1]'' ''a1 b.jpg''"
  by code_simp

end
